theory Spec2Isabelle
  imports Complex_Main "HOL-Library.Signed_Division" "HOL-Library.Multiset"
begin

unbundle bit_operations_syntax

section \<open>The command line of the solver front end (solver.cpp, main)\<close>

text \<open>
  \<^verbatim>\<open>usage(msg)\<close> prints and leaves the process with \<^verbatim>\<open>EXIT_FAILURE\<close>; an exception
  of \<^verbatim>\<open>std::stoi\<close> is caught by the function-try-block of \<^verbatim>\<open>main\<close>, which also
  returns \<^verbatim>\<open>EXIT_FAILURE\<close>. Both are values of \<open>exit_t\<close>.
\<close>

datatype stoi_exn = invalid_argument | out_of_range

datatype exit_t = Usage string | Fatal stoi_exn

text \<open>The two factories that \<^verbatim>\<open>main\<close> calls, with the thread count they receive.\<close>

datatype solver_ctor = create_krof_algo int | create_kociemba_algo int

record setup_t =
  solver :: solver_ctor
  scrambleMoves :: int

text \<open>
  The option loop: every option is a two-character string starting with a dash and is
  followed by its value; \<^verbatim>\<open>std::map::emplace\<close> keeps the first value of a repeated key.
\<close>

definition emplace :: "(string \<rightharpoonup> string) \<Rightarrow> string \<Rightarrow> string \<Rightarrow> (string \<rightharpoonup> string)" where
  "emplace m k v = (case m k of None \<Rightarrow> m(k \<mapsto> v) | Some _ \<Rightarrow> m)"

fun parse_cli :: "string list \<Rightarrow> (string \<rightharpoonup> string) \<Rightarrow> exit_t + (string \<rightharpoonup> string)" where
  "parse_cli [] arg = Inr arg"
| "parse_cli [key] arg =
     (if length key \<noteq> 2 \<or> hd key \<noteq> CHR ''-'' then Inl (Usage [])
      else Inl (Usage (''missing value for option '' @ key)))"
| "parse_cli (key # val # rest) arg =
     (if length key \<noteq> 2 \<or> hd key \<noteq> CHR ''-'' then Inl (Usage [])
      else parse_cli rest (emplace arg (tl key) val))"

text \<open>
  \<^verbatim>\<open>std::stoi\<close> (base 10, through \<^verbatim>\<open>strtol\<close>): leading white space is skipped, one sign
  is read, then the longest run of digits; no digit raises \<^verbatim>\<open>invalid_argument\<close>, a
  value that does not fit a 32-bit \<^verbatim>\<open>int\<close> raises \<^verbatim>\<open>out_of_range\<close>; whatever follows
  the digits is ignored.
\<close>

definition isspace_c :: "char \<Rightarrow> bool" where
  "isspace_c c = (of_char c \<in> {32::nat, 9, 10, 11, 12, 13})"

definition isdigit_c :: "char \<Rightarrow> bool" where
  "isdigit_c c = (48 \<le> (of_char c :: nat) \<and> (of_char c :: nat) \<le> 57)"

definition digit_val :: "char \<Rightarrow> int" where
  "digit_val c = int (of_char c) - 48"

definition stoi :: "string \<Rightarrow> stoi_exn + int" where
  "stoi s =
     (let t = dropWhile isspace_c s;
          neg = (t \<noteq> [] \<and> hd t = CHR ''-'');
          u = (if t \<noteq> [] \<and> (hd t = CHR ''-'' \<or> hd t = CHR ''+'') then tl t else t);
          ds = takeWhile isdigit_c u;
          v = foldl (\<lambda>a c. 10 * a + digit_val c) 0 ds;
          n = (if neg then - v else v)
      in if ds = [] then Inl invalid_argument
         else if n < - (2 ^ 31) \<or> 2 ^ 31 - 1 < n then Inl out_of_range
         else Inr n)"

text \<open>The three option reads of \<^verbatim>\<open>main\<close>, each with its default.\<close>

definition algo_of :: "(string \<rightharpoonup> string) \<Rightarrow> string" where
  "algo_of arg = (case arg ''a'' of Some a \<Rightarrow> a | None \<Rightarrow> ''kociemba'')"

definition threads_of :: "(string \<rightharpoonup> string) \<Rightarrow> stoi_exn + int" where
  "threads_of arg = (case arg ''t'' of Some t \<Rightarrow> stoi t | None \<Rightarrow> Inr 1)"

definition scramble_of :: "(string \<rightharpoonup> string) \<Rightarrow> stoi_exn + int" where
  "scramble_of arg = (case arg ''s'' of Some s \<Rightarrow> stoi s | None \<Rightarrow> Inr 20)"

text \<open>
  The body of \<^verbatim>\<open>main\<close> up to the construction of the solver: the three reads in the
  order of the source (a throwing \<^verbatim>\<open>stoi\<close> ends the run before any check), then the
  three checks in the order of the source, then the factory call.
\<close>

definition main_args :: "(string \<rightharpoonup> string) \<Rightarrow> exit_t + setup_t" where
  "main_args arg =
     (let algo = algo_of arg in
      case threads_of arg of Inl e \<Rightarrow> Inl (Fatal e) | Inr threads \<Rightarrow>
      case scramble_of arg of Inl e \<Rightarrow> Inl (Fatal e) | Inr scramble \<Rightarrow>
      if \<not> (algo = ''kociemba'' \<or> algo = ''krof'') then Inl (Usage ''invalid algorithm'')
      else if threads < 1 \<or> threads > 32 then Inl (Usage ''threads 1-32 only'')
      else if scramble < 0 \<or> scramble > 100 then Inl (Usage ''scramble 0-100 only'')
      else Inr \<lparr>solver = (if algo = ''krof'' then create_krof_algo threads
                          else create_kociemba_algo threads),
                scrambleMoves = scramble\<rparr>)"

definition main :: "string list \<Rightarrow> exit_t + setup_t" where
  "main argv = (case parse_cli argv Map.empty of Inl e \<Rightarrow> Inl e | Inr arg \<Rightarrow> main_args arg)"

fun threads_given :: "solver_ctor \<Rightarrow> int" where
  "threads_given (create_krof_algo t) = t"
| "threads_given (create_kociemba_algo t) = t"


section \<open>The solution printer of the key callback (solver.cpp)\<close>

text \<open>
  \<^verbatim>\<open>printRotate(static_cast<int>(f), (r % 4 + 4) & 3)\<close>: the \<^verbatim>\<open>%\<close> of C++ truncates
  towards zero (\<open>smod\<close>), so \<^verbatim>\<open>r % 4\<close> lies in \<open>-3 .. 3\<close>.
\<close>

definition kFaceStr :: "char list" where
  "kFaceStr = [CHR ''U'', CHR ''D'', CHR ''F'', CHR ''B'', CHR ''L'', CHR ''R'']"

definition shown_turns :: "int \<Rightarrow> int" where
  "shown_turns r = (r smod 4 + 4) AND 3"

definition printRotate :: "nat \<Rightarrow> int \<Rightarrow> string" where
  "printRotate faceIdx n =
     (kFaceStr ! faceIdx) #
     (if n > 1 then [if n = 2 then CHR ''2'' else CHR 0x27] else [])"

section \<open>The viewer (viewer_gl.cpp)\<close>

text \<open>
  The six values of \<^verbatim>\<open>face_t::face_type\<close> that the switch of \<^verbatim>\<open>update_rotate\<close> names
  (\<^verbatim>\<open>top\<close>, \<^verbatim>\<open>bottom\<close>, \<^verbatim>\<open>front\<close>, \<^verbatim>\<open>back\<close>, \<^verbatim>\<open>left\<close>, \<^verbatim>\<open>right\<close>); the suffix keeps
  them apart from the names Isabelle reserves.
\<close>

datatype face_type = top_f | bottom_f | front_f | back_f | left_f | right_f

text \<open>
  \<^verbatim>\<open>rotate_manager_t\<close>. The clock is an input: every function that reads
  \<^verbatim>\<open>clock_type::now()\<close> takes the reading as its first argument. Times and durations
  are \<^verbatim>\<open>double\<close>s and are modelled as reals; the quotient \<^verbatim>\<open>elapsed / duration\<close> of
  \<^verbatim>\<open>get\<close> is not finite when the duration is zero (taken as +0.0), and \<open>None\<close> stands
  for a result that is not a finite number.
\<close>

record rotate_manager_t =
  t_s :: real
  duration :: real
  active :: bool

definition is_active :: "rotate_manager_t \<Rightarrow> bool" where
  "is_active m = active m"

definition rotate_manager_set :: "real \<Rightarrow> real \<Rightarrow> rotate_manager_t \<Rightarrow> rotate_manager_t" where
  "rotate_manager_set now d m = m\<lparr>duration := d, t_s := now, active := True\<rparr>"

definition rotate_manager_get :: "real \<Rightarrow> rotate_manager_t \<Rightarrow> real option \<times> rotate_manager_t" where
  "rotate_manager_get now m =
     (let elapsed = now - t_s m in
      if duration m = 0 then
        (if 0 < elapsed then (Some 1, m\<lparr>active := False\<rparr>) else (None, m))
      else
        (let r = elapsed / duration m in
         (Some (min r 1), if r \<ge> 1 then m\<lparr>active := False\<rparr> else m)))"

text \<open>
  The fields of \<^verbatim>\<open>viewer_gl\<close> that its member functions read or write (the trackball
  and the window handle are left out). The two cube classes are declared in headers that
  are not among the source files, so the viewer is polymorphic in them and every function
  that calls \<^verbatim>\<open>cube_t::rotate\<close> or \<^verbatim>\<open>cube4_t::rotate\<close> takes them as \<open>rot3\<close> and \<open>rot4\<close>.
\<close>

record ('c3, 'c4) viewer_gl =
  rotate_que :: "(face_type \<times> int \<times> int) list"
  rotate_mask :: "int list"
  rotate_deg :: "real option"
  rotate_vec :: real
  rotate_mgr :: rotate_manager_t
  rotate_duration :: real
  zoom_factor :: real
  yaw_deg :: real
  pitch_deg :: real
  cube_size :: int
  cube :: 'c3
  cube4 :: 'c4

text \<open>The defaulted constructor: the default member initialisers of the class.\<close>

definition viewer_gl_new :: "'c3 \<Rightarrow> 'c4 \<Rightarrow> ('c3, 'c4) viewer_gl" where
  "viewer_gl_new c c4 =
     \<lparr>rotate_que = [], rotate_mask = [-1, -1, -1], rotate_deg = Some 0, rotate_vec = 0,
      rotate_mgr = \<lparr>t_s = 0, duration = 0, active = False\<rparr>, rotate_duration = 1,
      zoom_factor = 1, yaw_deg = 0, pitch_deg = 0, cube_size = 3, cube = c, cube4 = c4\<rparr>"

definition set_cube :: "'c3 \<Rightarrow> ('c3, 'c4) viewer_gl \<Rightarrow> ('c3, 'c4) viewer_gl" where
  "set_cube c v = v\<lparr>cube_size := 3, cube := c\<rparr>"

definition set_cube4 :: "'c4 \<Rightarrow> ('c3, 'c4) viewer_gl \<Rightarrow> ('c3, 'c4) viewer_gl" where
  "set_cube4 c v = v\<lparr>cube_size := 4, cube4 := c\<rparr>"

definition set_rotate_duration :: "real \<Rightarrow> ('c3, 'c4) viewer_gl \<Rightarrow> ('c3, 'c4) viewer_gl" where
  "set_rotate_duration d v = v\<lparr>rotate_duration := d\<rparr>"

text \<open>\<^verbatim>\<open>add_rotate(f, depth, cnt)\<close> queues \<^verbatim>\<open>cnt % 4\<close>, the truncating remainder.\<close>

definition add_rotate_depth ::
  "face_type \<Rightarrow> int \<Rightarrow> int \<Rightarrow> ('c3, 'c4) viewer_gl \<Rightarrow> ('c3, 'c4) viewer_gl" where
  "add_rotate_depth f depth cnt v = v\<lparr>rotate_que := rotate_que v @ [(f, depth, cnt smod 4)]\<rparr>"

definition add_rotate :: "face_type \<Rightarrow> int \<Rightarrow> ('c3, 'c4) viewer_gl \<Rightarrow> ('c3, 'c4) viewer_gl" where
  "add_rotate f cnt v = add_rotate_depth f 1 cnt v"

definition adjust_orbit :: "real \<Rightarrow> real \<Rightarrow> ('c3, 'c4) viewer_gl \<Rightarrow> ('c3, 'c4) viewer_gl" where
  "adjust_orbit dAlpha dBeta v = v\<lparr>pitch_deg := pitch_deg v + dAlpha, yaw_deg := yaw_deg v + dBeta\<rparr>"

text \<open>
  \<^verbatim>\<open>std::clamp(v, lo, hi)\<close> is \<^verbatim>\<open>(v < lo) ? lo : (hi < v) ? hi : v\<close>. The product
  \<^verbatim>\<open>zoom_factor * factor\<close> is a \<^verbatim>\<open>double\<close>: \<open>rnd\<close> is the rounding that takes the exact
  product to the stored one, and nothing is assumed about it.
\<close>

definition clamp :: "real \<Rightarrow> real \<Rightarrow> real \<Rightarrow> real" where
  "clamp v lo hi = (if v < lo then lo else if hi < v then hi else v)"

definition zoom :: "(real \<Rightarrow> real) \<Rightarrow> real \<Rightarrow> ('c3, 'c4) viewer_gl \<Rightarrow> ('c3, 'c4) viewer_gl" where
  "zoom rnd factor v = v\<lparr>zoom_factor := clamp (rnd (zoom_factor v * factor)) 0.1 10.0\<rparr>"

text \<open>
  \<^verbatim>\<open>update_rotate\<close>, once per frame. \<open>start_rotate\<close> is its first block (the manager is
  idle: the animation of the move at the front of the queue starts); the clock is read
  there (\<open>now_set\<close>) and again in \<^verbatim>\<open>get\<close> (\<open>now_get\<close>).
\<close>

definition start_rotate ::
  "real \<Rightarrow> face_type \<Rightarrow> int \<Rightarrow> int \<Rightarrow> ('c3, 'c4) viewer_gl \<Rightarrow> ('c3, 'c4) viewer_gl" where
  "start_rotate now_set ftype depth cnt v =
     (let vec = (if cnt < 0 then - 1 else 1 :: real);
          idle = [- 1, - 1, - 1 :: int]
      in v\<lparr>rotate_mgr := rotate_manager_set now_set (rotate_duration v) (rotate_mgr v),
           rotate_vec := (case ftype of
               top_f \<Rightarrow> vec | bottom_f \<Rightarrow> - vec | left_f \<Rightarrow> - vec
             | right_f \<Rightarrow> vec | front_f \<Rightarrow> - vec | back_f \<Rightarrow> vec),
           rotate_mask := (case ftype of
               top_f \<Rightarrow> idle[0 := cube_size v - depth]
             | bottom_f \<Rightarrow> idle[0 := depth - 1]
             | left_f \<Rightarrow> idle[2 := depth - 1]
             | right_f \<Rightarrow> idle[2 := cube_size v - depth]
             | front_f \<Rightarrow> idle[1 := cube_size v - depth]
             | back_f \<Rightarrow> idle[1 := depth - 1])\<rparr>)"

definition update_rotate ::
  "(face_type \<Rightarrow> int \<Rightarrow> 'c3 \<Rightarrow> 'c3) \<Rightarrow> (face_type \<Rightarrow> int \<Rightarrow> int \<Rightarrow> 'c4 \<Rightarrow> 'c4) \<Rightarrow>
   real \<Rightarrow> real \<Rightarrow> ('c3, 'c4) viewer_gl \<Rightarrow> ('c3, 'c4) viewer_gl" where
  "update_rotate rot3 rot4 now_set now_get v =
     (case rotate_que v of
        [] \<Rightarrow> v
      | (ftype, depth, cnt) # rest \<Rightarrow>
          (let v1 = (if \<not> is_active (rotate_mgr v) then start_rotate now_set ftype depth cnt v else v);
               (r, m) = rotate_manager_get now_get (rotate_mgr v1);
               v2 = v1\<lparr>rotate_deg := map_option (\<lambda>x. \<bar>real_of_int cnt\<bar> * 90 * x) r,
                       rotate_mgr := m\<rparr>
           in if \<not> is_active m then
                v2\<lparr>rotate_mask := [- 1, - 1, - 1],
                   cube := (if cube_size v2 = 3 then rot3 ftype cnt (cube v2) else cube v2),
                   cube4 := (if cube_size v2 = 3 then cube4 v2 else rot4 ftype depth cnt (cube4 v2)),
                   rotate_que := rest\<rparr>
              else v2))"

text \<open>A run of frames: one pair of clock readings per call of \<^verbatim>\<open>update_rotate\<close>.\<close>

fun frames ::
  "(face_type \<Rightarrow> int \<Rightarrow> 'c3 \<Rightarrow> 'c3) \<Rightarrow> (face_type \<Rightarrow> int \<Rightarrow> int \<Rightarrow> 'c4 \<Rightarrow> 'c4) \<Rightarrow>
   (real \<times> real) list \<Rightarrow> ('c3, 'c4) viewer_gl \<Rightarrow> ('c3, 'c4) viewer_gl" where
  "frames rot3 rot4 [] v = v"
| "frames rot3 rot4 ((now_set, now_get) # ts) v =
     frames rot3 rot4 ts (update_rotate rot3 rot4 now_set now_get v)"

text \<open>What the queued moves will have done to the two cubes once the queue is empty.\<close>

fun pending ::
  "(face_type \<Rightarrow> int \<Rightarrow> 'c3 \<Rightarrow> 'c3) \<Rightarrow> (face_type \<Rightarrow> int \<Rightarrow> int \<Rightarrow> 'c4 \<Rightarrow> 'c4) \<Rightarrow>
   int \<Rightarrow> (face_type \<times> int \<times> int) list \<Rightarrow> 'c3 \<times> 'c4 \<Rightarrow> 'c3 \<times> 'c4" where
  "pending rot3 rot4 sz [] cs = cs"
| "pending rot3 rot4 sz ((f, depth, cnt) # q) (c, c4) =
     pending rot3 rot4 sz q (if sz = 3 then (rot3 f cnt c, c4) else (c, rot4 f depth cnt c4))"


section \<open>The cube algebra\<close>

text \<open>
  Modelled from the spec: \<^verbatim>\<open>cube_t\<close> with its \<^verbatim>\<open>rotate\<close> and the moves of a solution;
  the header and the implementation of the cube are not among the source files. The
  specification gives the state as the cubie at each of the 8 corner and 12 edge
  positions together with its orientation (0 to 2 for a corner, 0 or 1 for an edge); a
  quarter turn of a face cycles the four corners and the four edges of that face; the
  turns of the left, right, front and back face add 1, 2, 1, 2 (modulo 3) to the corners
  they move, the turns of the top and bottom face add nothing; the turns of the front
  and back face flip the four edges they move; the turn count is reduced modulo 4 and
  may be negative.

  Corner positions: URF, UFL, ULB, UBR, DFR, DLF, DBL, DRB are 0 to 7. Edge positions: UR,
  UF, UL, UB, DR, DF, DL, DB, FR, FL, BL, BR are 0 to 11. A cycle \<open>[a, b, c, d]\<close> moves the
  cubie at \<open>a\<close> to \<open>b\<close>, the one at \<open>b\<close> to \<open>c\<close>, the one at \<open>c\<close> to \<open>d\<close> and the one at
  \<open>d\<close> to \<open>a\<close>.
\<close>

record cube_t =
  cp :: "nat list"
  co :: "nat list"
  ep :: "nat list"
  eo :: "nat list"

definition solved :: cube_t where
  "solved = \<lparr>cp = [0, 1, 2, 3, 4, 5, 6, 7], co = [0, 0, 0, 0, 0, 0, 0, 0],
             ep = [0, 1, 2, 3, 4, 5, 6, 7, 8, 9, 10, 11],
             eo = [0, 0, 0, 0, 0, 0, 0, 0, 0, 0, 0, 0]\<rparr>"

definition is_solved :: "cube_t \<Rightarrow> bool" where
  "is_solved s = (s = solved)"

fun corner_cycle :: "face_type \<Rightarrow> nat list" where
  "corner_cycle top_f = [0, 1, 2, 3]"
| "corner_cycle bottom_f = [4, 7, 6, 5]"
| "corner_cycle front_f = [1, 0, 4, 5]"
| "corner_cycle back_f = [3, 2, 6, 7]"
| "corner_cycle left_f = [2, 1, 5, 6]"
| "corner_cycle right_f = [0, 3, 7, 4]"

fun edge_cycle :: "face_type \<Rightarrow> nat list" where
  "edge_cycle top_f = [0, 1, 2, 3]"
| "edge_cycle bottom_f = [4, 7, 6, 5]"
| "edge_cycle front_f = [1, 8, 5, 9]"
| "edge_cycle back_f = [3, 10, 7, 11]"
| "edge_cycle left_f = [2, 9, 6, 10]"
| "edge_cycle right_f = [0, 11, 4, 8]"

fun corner_twist :: "face_type \<Rightarrow> nat list" where
  "corner_twist top_f = [0, 0, 0, 0]"
| "corner_twist bottom_f = [0, 0, 0, 0]"
| "corner_twist f = [1, 2, 1, 2]"

fun edge_flip :: "face_type \<Rightarrow> nat list" where
  "edge_flip front_f = [1, 1, 1, 1]"
| "edge_flip back_f = [1, 1, 1, 1]"
| "edge_flip f = [0, 0, 0, 0]"

fun cycle4 :: "nat list \<Rightarrow> 'a list \<Rightarrow> 'a list" where
  "cycle4 [a, b, c, d] xs = xs[b := xs ! a, c := xs ! b, d := xs ! c, a := xs ! d]"
| "cycle4 ps xs = xs"

fun bump4 :: "nat \<Rightarrow> nat list \<Rightarrow> nat list \<Rightarrow> nat list \<Rightarrow> nat list" where
  "bump4 m [a, b, c, d] [i, j, k, l] xs =
     xs[a := (xs ! a + i) mod m, b := (xs ! b + j) mod m,
        c := (xs ! c + k) mod m, d := (xs ! d + l) mod m]"
| "bump4 m ps ds xs = xs"

text \<open>
  Modelled from the spec: the quarter turn of a face (the rotation code of the cube is not
  among the source files): the cubies of a cycle are twisted or flipped where they
  stand and then moved along the cycle.
\<close>

definition turn4 :: "nat \<Rightarrow> nat list \<Rightarrow> nat list \<Rightarrow> nat list \<Rightarrow> nat list" where
  "turn4 m ps ds xs = cycle4 ps (bump4 m ps ds xs)"

definition quarter :: "face_type \<Rightarrow> cube_t \<Rightarrow> cube_t" where
  "quarter f s =
     \<lparr>cp = cycle4 (corner_cycle f) (cp s),
      co = turn4 3 (corner_cycle f) (corner_twist f) (co s),
      ep = cycle4 (edge_cycle f) (ep s),
      eo = turn4 2 (edge_cycle f) (edge_flip f) (eo s)\<rparr>"

text \<open>
  Modelled from the spec: \<^verbatim>\<open>cube_t::rotate\<close>, which is not among the source files: the
  turn count is reduced modulo 4, negative counts included, and that many quarter turns
  are made.
\<close>

definition rotate_cube :: "face_type \<Rightarrow> int \<Rightarrow> cube_t \<Rightarrow> cube_t" where
  "rotate_cube f turns s = (quarter f ^^ nat (turns mod 4)) s"

text \<open>
  Modelled from the spec: a move is a face with a turn count and a solution a list of
  moves (the solver interface is not among the source files); the inverse of a move
  turns the same face the remaining way round.
\<close>

type_synonym move = "face_type \<times> int"

fun apply_move :: "cube_t \<Rightarrow> move \<Rightarrow> cube_t" where
  "apply_move s (f, turns) = rotate_cube f turns s"

fun inverse_move :: "move \<Rightarrow> move" where
  "inverse_move (f, turns) = (f, 4 - turns)"

definition apply_seq :: "cube_t \<Rightarrow> move list \<Rightarrow> cube_t" where
  "apply_seq s ms = foldl apply_move s ms"

text \<open>The reachable states: the solved cube and whatever a rotation makes of a reachable state.\<close>

inductive reachable :: "cube_t \<Rightarrow> bool" where
  reachable_solved: "reachable solved"
| reachable_rotate: "reachable s \<Longrightarrow> reachable (rotate_cube f turns s)"

text \<open>The ranges of the data model: every list has its length and every entry its range.\<close>

definition in_range :: "cube_t \<Rightarrow> bool" where
  "in_range s =
     (length (cp s) = 8 \<and> length (co s) = 8 \<and> length (ep s) = 12 \<and> length (eo s) = 12
      \<and> list_all (\<lambda>x. x < 8) (cp s) \<and> list_all (\<lambda>x. x < 3) (co s)
      \<and> list_all (\<lambda>x. x < 12) (ep s) \<and> list_all (\<lambda>x. x < 2) (eo s))"

section \<open>The coordinate encoders\<close>

text \<open>
  Modelled from the spec: the coordinate encoders and decoders (the solver core is not
  among the source files). The specification gives the encodings: the first 7 corner
  orientations as a base-3 number (the eighth follows from the sum being 0 modulo 3),
  the first 11 edge orientations as a base-2 number (the twelfth follows from the sum
  being even), the positions of the four slice edges (FR, FL, BL, BR: the edges 8 to 11)
  as a combinatorial rank below 495, and the permutations as Lehmer-code ranks below
  \<open>n!\<close>. Each encoder reads one part of the cube; its decoder returns that part.
\<close>


fun to_digits :: "nat \<Rightarrow> nat \<Rightarrow> nat \<Rightarrow> nat list" where
  "to_digits b 0 c = []"
| "to_digits b (Suc n) c = to_digits b n (c div b) @ [c mod b]"


definition decode_twist :: "nat \<Rightarrow> nat list" where
  "decode_twist c = (let ds = to_digits 3 7 c in ds @ [(3 - sum_list ds mod 3) mod 3])"


definition decode_flip :: "nat \<Rightarrow> nat list" where
  "decode_flip c = (let ds = to_digits 2 11 c in ds @ [(2 - sum_list ds mod 2) mod 2])"



















section \<open>The pruning tables\<close>

text \<open>
  Modelled from the spec: the builder of a pruning table (the solver core is not among
  the source files). The specification gives it as a breadth-first flood over the move
  graph of a coordinate: a nibble array initialised to 0xF, 0 written at the goal, and at
  each depth \<open>d\<close> a scan of the entries equal to \<open>d\<close> that writes \<open>d + 1\<close> into every
  successor still equal to 0xF, until a pass updates nothing. The move table \<open>nxt\<close>, the
  allowed moves, the domain size and the goal are parameters, as they differ per table.
\<close>

text \<open>
  One write of the flood: an entry that is still 0xF takes the depth \<open>d + 1\<close>. An index
  outside the table is not written (the specification makes it a fatal assertion and the
  move tables total).
\<close>

definition relax :: "nat \<Rightarrow> nat list \<Rightarrow> nat \<Rightarrow> nat list" where
  "relax d t c = (if c < length t \<and> t ! c = 15 then t[c := d + 1] else t)"

text \<open>
  One pass at depth \<open>d\<close>: every entry equal to \<open>d\<close> is expanded by every allowed move
  through the move table \<open>nxt\<close>; the table is updated in place.
\<close>

definition expand :: "(nat \<Rightarrow> 'm \<Rightarrow> nat) \<Rightarrow> 'm list \<Rightarrow> nat \<Rightarrow> nat list \<Rightarrow> nat \<Rightarrow> nat list" where
  "expand nxt moves d t c =
     (if t ! c = d then foldl (\<lambda>t m. relax d t (nxt c m)) t moves else t)"

definition flood_pass :: "(nat \<Rightarrow> 'm \<Rightarrow> nat) \<Rightarrow> 'm list \<Rightarrow> nat \<Rightarrow> nat list \<Rightarrow> nat list" where
  "flood_pass nxt moves d t = foldl (expand nxt moves d) t [0..<length t]"

text \<open>
  The flood ends with the first pass that updates nothing. It does end: a pass that
  changes the table leaves fewer entries at 0xF.
\<close>

definition unset :: "nat list \<Rightarrow> nat" where
  "unset t = length (filter (\<lambda>x. x = 15) t)"

lemma relax_length: "length (relax d t c) = length t"
  by (simp add: relax_def)

lemma unset_update:
  assumes "c < length t" "t ! c = 15" "v \<noteq> 15"
  shows "unset (t[c := v]) < unset t"
proof -
  have t: "t = take c t @ 15 # drop (Suc c) t"
    using assms(1,2) by (metis id_take_nth_drop)
  have "t[c := v] = take c t @ v # drop (Suc c) t"
    using assms(1) by (simp add: upd_conv_take_nth_drop)
  then have "unset (t[c := v]) = unset (take c t) + unset (drop (Suc c) t)"
    using assms(3) by (simp add: unset_def)
  moreover have "unset t = unset (take c t) + 1 + unset (drop (Suc c) t)"
    by (subst t) (simp add: unset_def)
  ultimately show ?thesis by simp
qed

definition settles :: "nat list \<Rightarrow> nat list \<Rightarrow> bool" where
  "settles t t' = (length t' = length t \<and> unset t' \<le> unset t \<and> (t' \<noteq> t \<longrightarrow> unset t' < unset t))"

lemma settles_refl: "settles t t"
  by (simp add: settles_def)

lemma settles_trans: "settles t t' \<Longrightarrow> settles t' t'' \<Longrightarrow> settles t t''"
  unfolding settles_def by (metis le_trans less_le_trans le_less_trans)

lemma settles_relax: "settles t (relax d t c)"
proof (cases "c < length t \<and> t ! c = 15")
  case True
  show ?thesis
  proof (cases "d + 1 = 15")
    case True
    with \<open>c < length t \<and> t ! c = 15\<close> have "relax d t c = t"
      by (simp add: relax_def) (metis list_update_id)
    then show ?thesis by (simp add: settles_refl)
  next
    case False
    with True unset_update [of c t "d + 1"] show ?thesis
      by (simp add: relax_def settles_def less_imp_le)
  qed
next
  case False
  then have "relax d t c = t" by (auto simp: relax_def)
  then show ?thesis by (simp add: settles_refl)
qed

lemma settles_foldl:
  assumes "\<And>t x. settles t (f t x)"
  shows "settles t (foldl f t xs)"
proof (induction xs arbitrary: t)
  case Nil
  show ?case by (simp add: settles_refl)
next
  case (Cons x xs)
  show ?case using settles_trans [OF assms [of t x] Cons.IH [of "f t x"]] by simp
qed

lemma settles_expand: "settles t (expand nxt moves d t c)"
  unfolding expand_def by (simp add: settles_refl settles_foldl settles_relax)

lemma settles_pass: "settles t (flood_pass nxt moves d t)"
proof -
  have "settles t (foldl (expand nxt moves d) t xs)" for xs
    by (rule settles_foldl) (rule settles_expand)
  then show ?thesis unfolding flood_pass_def .
qed

function flood_from :: "(nat \<Rightarrow> 'm \<Rightarrow> nat) \<Rightarrow> 'm list \<Rightarrow> nat \<Rightarrow> nat list \<Rightarrow> nat list" where
  "flood_from nxt moves d t =
     (let t' = flood_pass nxt moves d t in if t' = t then t else flood_from nxt moves (d + 1) t')"
  by pat_completeness auto

termination
proof (relation "measure (\<lambda>(nxt, moves, d, t). unset t)")
  show "wf (measure (\<lambda>(nxt, moves, d, t). unset t))" by simp
next
  fix nxt :: "nat \<Rightarrow> 'm \<Rightarrow> nat" and moves d t t'
  assume "t' = flood_pass nxt moves d t" "t' \<noteq> t"
  then show "((nxt, moves, d + 1, t'), (nxt, moves, d, t)) \<in> measure (\<lambda>(nxt, moves, d, t). unset t)"
    using settles_pass [of t nxt moves d] by (simp add: settles_def)
qed

declare flood_from.simps [simp del]

text \<open>The builder: all entries 0xF, the goal entry 0, then the flood from depth 0.\<close>

definition build_table :: "(nat \<Rightarrow> 'm \<Rightarrow> nat) \<Rightarrow> 'm list \<Rightarrow> nat \<Rightarrow> nat \<Rightarrow> nat list" where
  "build_table nxt moves n goal = flood_from nxt moves 0 ((replicate n 15)[goal := 0])"


text \<open>
  The vocabulary of the flood's correctness: what a pass may change (\<open>keeps\<close>), a move
  table that stays inside the domain, the state of the table before the pass at depth
  \<open>d\<close> (\<open>flooded\<close>), and the finished table, whose entries are at most 15 and rise by at
  most one along a move (\<open>consistent\<close>).
\<close>

definition keeps :: "nat \<Rightarrow> nat list \<Rightarrow> nat list \<Rightarrow> bool" where
  "keeps d u u' = (length u' = length u \<and> (\<forall>y < length u. u' ! y = u ! y \<or> (u ! y = 15 \<and> u' ! y = d + 1)))"

definition closed_table :: "(nat \<Rightarrow> 'm \<Rightarrow> nat) \<Rightarrow> 'm list \<Rightarrow> nat \<Rightarrow> bool" where
  "closed_table nxt moves n = (\<forall>c < n. \<forall>m \<in> set moves. nxt c m < n)"

definition flooded :: "(nat \<Rightarrow> 'm \<Rightarrow> nat) \<Rightarrow> 'm list \<Rightarrow> nat \<Rightarrow> nat \<Rightarrow> nat list \<Rightarrow> bool" where
  "flooded nxt moves goal d t =
     (goal < length t \<and> t ! goal = 0 \<and> (\<forall>c < length t. t ! c \<le> d \<or> t ! c = 15)
      \<and> (\<forall>c < length t. t ! c < d \<longrightarrow> (\<forall>m \<in> set moves. t ! nxt c m \<le> t ! c + 1)))"

definition consistent :: "(nat \<Rightarrow> 'm \<Rightarrow> nat) \<Rightarrow> 'm list \<Rightarrow> nat \<Rightarrow> nat list \<Rightarrow> bool" where
  "consistent nxt moves goal t =
     (goal < length t \<and> t ! goal = 0 \<and> (\<forall>c < length t. t ! c \<le> 15)
      \<and> (\<forall>c < length t. t ! c < 15 \<longrightarrow> (\<forall>m \<in> set moves. t ! nxt c m \<le> t ! c + 1)))"

section \<open>The entry of the solver\<close>


text \<open>The parity of a permutation is the parity of its number of inversions.\<close>

fun inversions :: "nat list \<Rightarrow> nat" where
  "inversions [] = 0"
| "inversions (x # xs) = length (filter (\<lambda>y. y < x) xs) + inversions xs"




text \<open>
  Counting vocabulary for inversions: the entries of a list below a value, and the
  inversions between two lists.
\<close>

definition lt :: "nat list \<Rightarrow> nat \<Rightarrow> nat" where
  "lt xs v = length (filter (\<lambda>y. y < v) xs)"


section \<open>Properties of the command line\<close>

lemma emplace_agree:
  "\<forall>k. k \<noteq> r \<longrightarrow> m k = m' k \<Longrightarrow> \<forall>k. k \<noteq> r \<longrightarrow> emplace m j v k = emplace m' j v k"
  by (cases "j = r") (auto simp: emplace_def split: option.splits)

lemma parse_cli_agree:
  "\<forall>k. k \<noteq> r \<longrightarrow> m k = m' k \<Longrightarrow>
     rel_sum (=) (\<lambda>a a'. \<forall>k. k \<noteq> r \<longrightarrow> a k = a' k) (parse_cli xs m) (parse_cli xs m')"
proof (induction xs m arbitrary: m' rule: parse_cli.induct)
  case (1 arg)
  then show ?case by simp
next
  case (2 key arg)
  then show ?case by simp
next
  case (3 key val rest arg)
  show ?case
  proof (cases "length key \<noteq> 2 \<or> hd key \<noteq> CHR ''-''")
    case True
    then show ?thesis by simp
  next
    case False
    have "\<forall>k. k \<noteq> r \<longrightarrow> emplace arg (tl key) val k = emplace m' (tl key) val k"
      using "3.prems" by (rule emplace_agree)
    from "3.IH" [OF False this] False show ?thesis by simp
  qed
qed

lemma main_args_agree:
  "arg ''a'' = arg' ''a'' \<Longrightarrow> arg ''t'' = arg' ''t'' \<Longrightarrow> arg ''s'' = arg' ''s'' \<Longrightarrow>
     main_args arg = main_args arg'"
proof -
  assume a: "arg ''a'' = arg' ''a''" and t: "arg ''t'' = arg' ''t''" and s: "arg ''s'' = arg' ''s''"
  have eqs: "algo_of arg = algo_of arg'" "threads_of arg = threads_of arg'" "scramble_of arg = scramble_of arg'"
    by (simp_all add: algo_of_def threads_of_def scramble_of_def a t s)
  show ?thesis unfolding main_args_def eqs by (rule refl)
qed

lemma main_skips_r: "main (''-r'' # v # rest) = main rest"
proof -
  have "\<forall>k. k \<noteq> ''r'' \<longrightarrow> (emplace Map.empty ''r'' v) k = Map.empty k"
    by (simp add: emplace_def)
  from parse_cli_agree [OF this, of rest]
  show ?thesis
    by (cases "parse_cli rest (emplace Map.empty ''r'' v)"; cases "parse_cli rest Map.empty")
       (auto simp: main_def intro!: main_args_agree)
qed


lemma main_args_eq:
  assumes "threads_of arg = Inr t" and "scramble_of arg = Inr sc"
  shows "main_args arg =
     (if \<not> (algo_of arg = ''kociemba'' \<or> algo_of arg = ''krof'') then Inl (Usage ''invalid algorithm'')
      else if t < 1 \<or> t > 32 then Inl (Usage ''threads 1-32 only'')
      else if sc < 0 \<or> sc > 100 then Inl (Usage ''scramble 0-100 only'')
      else Inr \<lparr>solver = (if algo_of arg = ''krof'' then create_krof_algo t
                          else create_kociemba_algo t),
                scrambleMoves = sc\<rparr>)"
  unfolding main_args_def assms Let_def by simp

lemma main_args_Fatal:
  "threads_of arg = Inl e \<Longrightarrow> main_args arg = Inl (Fatal e)"
  "threads_of arg = Inr t \<Longrightarrow> scramble_of arg = Inl e \<Longrightarrow> main_args arg = Inl (Fatal e)"
  unfolding main_args_def Let_def by simp_all

lemma main_args_Inr:
  assumes "main_args arg = Inr st"
  shows "threads_of arg = Inr (threads_given (solver st)) \<and> scramble_of arg = Inr (scrambleMoves st)
     \<and> 1 \<le> threads_given (solver st) \<and> threads_given (solver st) \<le> 32
     \<and> 0 \<le> scrambleMoves st \<and> scrambleMoves st \<le> 100"
proof -
  obtain t where t: "threads_of arg = Inr t"
    using assms main_args_Fatal(1) [of arg] by (cases "threads_of arg") auto
  obtain sc where sc: "scramble_of arg = Inr sc"
    using assms main_args_Fatal(2) [OF t] by (cases "scramble_of arg") auto
  define ok where "ok = (algo_of arg = ''kociemba'' \<or> algo_of arg = ''krof'')"
  define k where "k = (algo_of arg = ''krof'')"
  have "main_args arg =
     (if \<not> ok then Inl (Usage ''invalid algorithm'')
      else if t < 1 \<or> t > 32 then Inl (Usage ''threads 1-32 only'')
      else if sc < 0 \<or> sc > 100 then Inl (Usage ''scramble 0-100 only'')
      else Inr \<lparr>solver = (if k then create_krof_algo t else create_kociemba_algo t),
                scrambleMoves = sc\<rparr>)"
    unfolding ok_def k_def by (rule main_args_eq [OF t sc])
  with assms have "st = \<lparr>solver = (if k then create_krof_algo t else create_kociemba_algo t),
                scrambleMoves = sc\<rparr> \<and> 1 \<le> t \<and> t \<le> 32 \<and> 0 \<le> sc \<and> sc \<le> 100"
    by (simp split: if_splits)
  then show ?thesis using t sc by (cases k) simp_all
qed


lemma main_args_threads:
  assumes t: "threads_of arg = Inr t"
  shows "(t < 1 \<or> 32 < t \<longrightarrow> (\<exists>e. main_args arg = Inl e))
       \<and> (t < 1 \<or> 32 < t \<longrightarrow> algo_of arg = ''kociemba'' \<or> algo_of arg = ''krof'' \<longrightarrow>
            (\<exists>sc. scramble_of arg = Inr sc) \<longrightarrow> main_args arg = Inl (Usage ''threads 1-32 only''))
       \<and> (1 \<le> t \<and> t \<le> 32 \<longrightarrow> algo_of arg = ''kociemba'' \<or> algo_of arg = ''krof'' \<longrightarrow>
            (\<exists>sc. scramble_of arg = Inr sc \<and> 0 \<le> sc \<and> sc \<le> 100) \<longrightarrow>
            (\<exists>st. main_args arg = Inr st \<and> threads_given (solver st) = t))"
proof (cases "scramble_of arg")
  case (Inl e)
  then show ?thesis using main_args_Fatal(2) [OF t] by simp
next
  case (Inr sc)
  define ok where "ok = (algo_of arg = ''kociemba'' \<or> algo_of arg = ''krof'')"
  define k where "k = (algo_of arg = ''krof'')"
  have "main_args arg =
     (if \<not> ok then Inl (Usage ''invalid algorithm'')
      else if t < 1 \<or> t > 32 then Inl (Usage ''threads 1-32 only'')
      else if sc < 0 \<or> sc > 100 then Inl (Usage ''scramble 0-100 only'')
      else Inr \<lparr>solver = (if k then create_krof_algo t else create_kociemba_algo t),
                scrambleMoves = sc\<rparr>)"
    unfolding ok_def k_def by (rule main_args_eq [OF t Inr])
  then show ?thesis
    unfolding ok_def [symmetric] Inr by (cases k; cases ok) auto
qed

lemma main_args_scramble:
  assumes sc: "scramble_of arg = Inr sc"
  shows "(sc < 0 \<or> 100 < sc \<longrightarrow> (\<exists>e. main_args arg = Inl e))
       \<and> (sc < 0 \<or> 100 < sc \<longrightarrow> algo_of arg = ''kociemba'' \<or> algo_of arg = ''krof'' \<longrightarrow>
            (\<exists>t. threads_of arg = Inr t \<and> 1 \<le> t \<and> t \<le> 32) \<longrightarrow>
            main_args arg = Inl (Usage ''scramble 0-100 only''))"
proof (cases "threads_of arg")
  case (Inl e)
  then show ?thesis using main_args_Fatal(1) [of arg e] by simp
next
  case (Inr t)
  define ok where "ok = (algo_of arg = ''kociemba'' \<or> algo_of arg = ''krof'')"
  define k where "k = (algo_of arg = ''krof'')"
  have "main_args arg =
     (if \<not> ok then Inl (Usage ''invalid algorithm'')
      else if t < 1 \<or> t > 32 then Inl (Usage ''threads 1-32 only'')
      else if sc < 0 \<or> sc > 100 then Inl (Usage ''scramble 0-100 only'')
      else Inr \<lparr>solver = (if k then create_krof_algo t else create_kociemba_algo t),
                scrambleMoves = sc\<rparr>)"
    unfolding ok_def k_def by (rule main_args_eq [OF Inr sc])
  then show ?thesis
    unfolding ok_def [symmetric] Inr by (cases k; cases ok) auto
qed

text \<open>
  Claim C7. Let the options parse, and let \<open>t\<close> be the thread count that \<^verbatim>\<open>main\<close> reads
  (the value of \<^verbatim>\<open>-t\<close>, or the default 1). If \<open>t\<close> is outside \<open>1 .. 32\<close> the run ends
  in an exit and no factory is called; with a known algorithm and a readable scramble
  count that exit is the usage error "threads 1-32 only". If \<open>t\<close> is inside \<open>1 .. 32\<close>
  and the other two options are valid, the factory is called with exactly \<open>t\<close> threads.
  Whenever a factory is called at all, it is called with \<open>t\<close>, and \<open>t\<close> is in \<open>1 .. 32\<close>.
\<close>

theorem threads_checked_before_construction:
  assumes "parse_cli argv Map.empty = Inr arg" and "threads_of arg = Inr t"
  shows "(t < 1 \<or> 32 < t \<longrightarrow> (\<exists>e. main argv = Inl e))
       \<and> (t < 1 \<or> 32 < t \<longrightarrow> algo_of arg = ''kociemba'' \<or> algo_of arg = ''krof'' \<longrightarrow>
            (\<exists>sc. scramble_of arg = Inr sc) \<longrightarrow> main argv = Inl (Usage ''threads 1-32 only''))
       \<and> (1 \<le> t \<and> t \<le> 32 \<longrightarrow> algo_of arg = ''kociemba'' \<or> algo_of arg = ''krof'' \<longrightarrow>
            (\<exists>sc. scramble_of arg = Inr sc \<and> 0 \<le> sc \<and> sc \<le> 100) \<longrightarrow>
            (\<exists>st. main argv = Inr st \<and> threads_given (solver st) = t))
       \<and> (\<forall>st. main argv = Inr st \<longrightarrow>
            threads_given (solver st) = t \<and> 1 \<le> t \<and> t \<le> 32)"
proof -
  have m: "main argv = main_args arg"
    using assms(1) by (simp add: main_def)
  have "\<forall>st. main_args arg = Inr st \<longrightarrow> threads_given (solver st) = t \<and> 1 \<le> t \<and> t \<le> 32"
    using main_args_Inr [of arg] assms(2) by fastforce
  with main_args_threads [OF assms(2)] show ?thesis
    unfolding m by blast
qed

text \<open>
  Claim C8. The scramble count is read from the option \<^verbatim>\<open>-s\<close> and is 20 when that option
  is absent; a run that reaches the solver carries a count in \<open>0 .. 100\<close>; a count
  outside \<open>0 .. 100\<close> ends the run in an exit (the usage error "scramble 0-100 only"
  when the other options are valid); and an option \<^verbatim>\<open>-r\<close> is parsed and then ignored.
\<close>

theorem scramble_count_option:
  assumes "parse_cli argv Map.empty = Inr arg"
  shows "(arg ''s'' = None \<longrightarrow> scramble_of arg = Inr 20)
       \<and> (\<forall>v. arg ''s'' = Some v \<longrightarrow> scramble_of arg = stoi v)
       \<and> (\<forall>st. main argv = Inr st \<longrightarrow>
            scramble_of arg = Inr (scrambleMoves st) \<and> 0 \<le> scrambleMoves st \<and> scrambleMoves st \<le> 100)
       \<and> (\<forall>sc. scramble_of arg = Inr sc \<longrightarrow> sc < 0 \<or> 100 < sc \<longrightarrow> (\<exists>e. main argv = Inl e))
       \<and> (\<forall>sc. scramble_of arg = Inr sc \<longrightarrow> sc < 0 \<or> 100 < sc \<longrightarrow>
            algo_of arg = ''kociemba'' \<or> algo_of arg = ''krof'' \<longrightarrow>
            (\<exists>t. threads_of arg = Inr t \<and> 1 \<le> t \<and> t \<le> 32) \<longrightarrow>
            main argv = Inl (Usage ''scramble 0-100 only''))
       \<and> (\<forall>v. main (''-r'' # v # argv) = main argv)"
proof -
  have m: "main argv = main_args arg"
    using assms(1) by (simp add: main_def)
  have 1: "arg ''s'' = None \<longrightarrow> scramble_of arg = Inr 20"
    and 2: "\<forall>v. arg ''s'' = Some v \<longrightarrow> scramble_of arg = stoi v"
    by (simp_all add: scramble_of_def)
  have 3: "\<forall>st. main_args arg = Inr st \<longrightarrow>
            scramble_of arg = Inr (scrambleMoves st) \<and> 0 \<le> scrambleMoves st \<and> scrambleMoves st \<le> 100"
    using main_args_Inr [of arg] by blast
  have 4: "\<forall>v. main (''-r'' # v # argv) = main_args arg"
    using main_skips_r [of _ argv] m by simp
  show ?thesis
    unfolding m using 1 2 3 4 main_args_scramble [of arg] by blast
qed

lemma stoi_literals:
  "stoi ''32'' = Inr 32" "stoi ''33'' = Inr 33" "stoi ''101'' = Inr 101" "stoi ''100'' = Inr 100"
  by (simp_all add: stoi_def isspace_c_def isdigit_c_def digit_val_def)

theorem threads_checked_before_construction_witness:
  "main [''-t'', ''33'', ''-a'', ''krof''] = Inl (Usage ''threads 1-32 only'')
   \<and> (\<exists>st. main [''-t'', ''32'', ''-a'', ''krof''] = Inr st \<and> threads_given (solver st) = 32)"
proof -
  have p33: "parse_cli [''-t'', ''33'', ''-a'', ''krof''] Map.empty = Inr ([''t'' \<mapsto> ''33'', ''a'' \<mapsto> ''krof''])"
    by (simp add: emplace_def)
  have p32: "parse_cli [''-t'', ''32'', ''-a'', ''krof''] Map.empty = Inr ([''t'' \<mapsto> ''32'', ''a'' \<mapsto> ''krof''])"
    by (simp add: emplace_def)
  have t33: "threads_of ([''t'' \<mapsto> ''33'', ''a'' \<mapsto> ''krof'']) = Inr 33"
    by (simp add: threads_of_def stoi_literals)
  have t32: "threads_of ([''t'' \<mapsto> ''32'', ''a'' \<mapsto> ''krof'']) = Inr 32"
    by (simp add: threads_of_def stoi_literals)
  have a: "algo_of ([''t'' \<mapsto> x, ''a'' \<mapsto> ''krof'']) = ''krof''" for x
    by (simp add: algo_of_def)
  have s: "scramble_of ([''t'' \<mapsto> x, ''a'' \<mapsto> ''krof'']) = Inr 20" for x
    by (simp add: scramble_of_def)
  show ?thesis
    using threads_checked_before_construction [OF p33 t33] threads_checked_before_construction [OF p32 t32]
    by (simp add: a s)
qed

theorem scramble_count_option_witness:
  "main [''-s'', ''101''] = Inl (Usage ''scramble 0-100 only'')
   \<and> main [''-s'', ''100''] = Inr \<lparr>solver = create_kociemba_algo 1, scrambleMoves = 100\<rparr>
   \<and> main [''-t'', ''32''] = Inr \<lparr>solver = create_kociemba_algo 32, scrambleMoves = 20\<rparr>
   \<and> main [''-r'', ''15'', ''-t'', ''32''] = main [''-t'', ''32'']"
proof -
  have p101: "parse_cli [''-s'', ''101''] Map.empty = Inr [''s'' \<mapsto> ''101'']"
    and p100: "parse_cli [''-s'', ''100''] Map.empty = Inr [''s'' \<mapsto> ''100'']"
    and p32: "parse_cli [''-t'', ''32''] Map.empty = Inr [''t'' \<mapsto> ''32'']"
    by (simp_all add: emplace_def)
  have v: "scramble_of [''s'' \<mapsto> ''101''] = Inr 101" "scramble_of [''s'' \<mapsto> ''100''] = Inr 100"
      "scramble_of [''t'' \<mapsto> ''32''] = Inr 20"
      "algo_of [''s'' \<mapsto> ''101''] = ''kociemba''" "threads_of [''s'' \<mapsto> ''101''] = Inr 1"
      "algo_of [''s'' \<mapsto> ''100''] = ''kociemba''" "threads_of [''s'' \<mapsto> ''100''] = Inr 1"
      "algo_of [''t'' \<mapsto> ''32''] = ''kociemba''" "threads_of [''t'' \<mapsto> ''32''] = Inr 32"
    by (simp_all add: scramble_of_def algo_of_def threads_of_def stoi_literals)
  have m100: "main [''-s'', ''100''] = Inr \<lparr>solver = create_kociemba_algo 1, scrambleMoves = 100\<rparr>"
    unfolding main_def p100 by (simp add: main_args_eq [OF v(7) v(2)] v)
  have m32: "main [''-t'', ''32''] = Inr \<lparr>solver = create_kociemba_algo 32, scrambleMoves = 20\<rparr>"
    unfolding main_def p32 by (simp add: main_args_eq [OF v(9) v(3)] v)
  have r: "main [''-r'', ''15'', ''-t'', ''32''] = main [''-t'', ''32'']"
    using scramble_count_option [OF p32] by blast
  show ?thesis
    using scramble_count_option [OF p101] m100 m32 r
    by (simp add: v)
qed


section \<open>Properties of the viewer\<close>

lemma clamp_range: "lo \<le> hi \<Longrightarrow> lo \<le> clamp v lo hi \<and> clamp v lo hi \<le> hi"
  by (simp add: clamp_def)

lemma zoom_range: "0.1 \<le> zoom_factor (zoom rnd f v) \<and> zoom_factor (zoom rnd f v) \<le> 10"
  using clamp_range [of "0.1" "10.0"] by (simp add: zoom_def)

lemma zoom_foldl_range:
  "0.1 \<le> zoom_factor v \<Longrightarrow> zoom_factor v \<le> 10 \<Longrightarrow>
   0.1 \<le> zoom_factor (foldl (\<lambda>v f. zoom rnd f v) v fs) \<and> zoom_factor (foldl (\<lambda>v f. zoom rnd f v) v fs) \<le> 10"
proof (induction fs arbitrary: v)
  case Nil
  then show ?case by simp
next
  case (Cons f fs)
  show ?case using Cons.IH [of "zoom rnd f v"] zoom_range [of rnd f v] by simp
qed

text \<open>
  Claim C10. A new viewer has zoom factor 1, and after any sequence of \<^verbatim>\<open>zoom\<close> calls
  with positive factors the zoom factor lies in the closed interval from 0.1 to 10,
  whatever the rounding of the products.
\<close>

theorem zoom_factor_stays_in_range:
  assumes "\<forall>f \<in> set fs. 0 < f"
  shows "zoom_factor (viewer_gl_new c c4) = 1
       \<and> 0.1 \<le> zoom_factor (foldl (\<lambda>v f. zoom rnd f v) (viewer_gl_new c c4) fs)
       \<and> zoom_factor (foldl (\<lambda>v f. zoom rnd f v) (viewer_gl_new c c4) fs) \<le> 10"
proof -
  have 1: "zoom_factor (viewer_gl_new c c4) = 1"
    by (simp add: viewer_gl_new_def)
  then show ?thesis
    using zoom_foldl_range [of "viewer_gl_new c c4" rnd fs] by simp
qed

theorem zoom_factor_stays_in_range_witness:
  "zoom_factor (foldl (\<lambda>v f. zoom id f v) (viewer_gl_new () ()) [1.1, 1.1, 0.9]) \<le> 10
   \<and> zoom_factor (foldl (\<lambda>v f. zoom id f v) (viewer_gl_new () ()) [100, 0.001]) = 0.1"
proof -
  have "\<forall>f \<in> set [1.1, 1.1, 0.9 :: real]. 0 < f" by simp
  from zoom_factor_stays_in_range [OF this, of "()" "()" id]
  show ?thesis by (simp add: zoom_def clamp_def viewer_gl_new_def)
qed

lemma update_rotate_empty: "rotate_que v = [] \<Longrightarrow> update_rotate rot3 rot4 t1 t2 v = v"
  by (simp add: update_rotate_def)

lemma start_rotate_frame:
  "cube (start_rotate t f d n v) = cube v" "cube4 (start_rotate t f d n v) = cube4 v"
  "rotate_que (start_rotate t f d n v) = rotate_que v" "cube_size (start_rotate t f d n v) = cube_size v"
  by (simp_all add: start_rotate_def Let_def)

lemma update_rotate_step:
  assumes q: "rotate_que v = (f, d, n) # rest"
  shows "let v' = update_rotate rot3 rot4 t1 t2 v in
     cube_size v' = cube_size v \<and>
     (if is_active (rotate_mgr v')
      then cube v' = cube v \<and> cube4 v' = cube4 v \<and> rotate_que v' = rotate_que v
      else rotate_que v' = rest \<and>
           (cube v', cube4 v') =
             (if cube_size v = 3 then (rot3 f n (cube v), cube4 v) else (cube v, rot4 f d n (cube4 v))))"
  unfolding update_rotate_def q Let_def
  by (simp add: start_rotate_frame q split: prod.splits)


lemma pending_append:
  "pending rot3 rot4 sz (xs @ ys) cs = pending rot3 rot4 sz ys (pending rot3 rot4 sz xs cs)"
  by (induction rot3 rot4 sz xs cs rule: pending.induct) simp_all

lemma update_rotate_prefix:
  "\<exists>k. cube_size (update_rotate rot3 rot4 t1 t2 v) = cube_size v \<and>
       rotate_que (update_rotate rot3 rot4 t1 t2 v) = drop k (rotate_que v) \<and>
       (cube (update_rotate rot3 rot4 t1 t2 v), cube4 (update_rotate rot3 rot4 t1 t2 v)) =
          pending rot3 rot4 (cube_size v) (take k (rotate_que v)) (cube v, cube4 v)"
proof (cases "rotate_que v")
  case Nil
  then show ?thesis by (simp add: update_rotate_empty)
next
  case (Cons a rest)
  obtain f d n where a: "a = (f, d, n)" by (cases a)
  have q: "rotate_que v = (f, d, n) # rest" using Cons a by simp
  show ?thesis
  proof (cases "is_active (rotate_mgr (update_rotate rot3 rot4 t1 t2 v))")
    case True
    with update_rotate_step [OF q, of rot3 rot4 t1 t2] show ?thesis
      by (intro exI [of _ 0]) (simp add: Let_def)
  next
    case False
    with update_rotate_step [OF q, of rot3 rot4 t1 t2] show ?thesis
      by (intro exI [of _ 1]) (simp add: Let_def q)
  qed
qed

lemma frames_prefix:
  "\<exists>k. cube_size (frames rot3 rot4 ts v) = cube_size v \<and>
       rotate_que (frames rot3 rot4 ts v) = drop k (rotate_que v) \<and>
       (cube (frames rot3 rot4 ts v), cube4 (frames rot3 rot4 ts v)) =
          pending rot3 rot4 (cube_size v) (take k (rotate_que v)) (cube v, cube4 v)"
proof (induction ts arbitrary: v)
  case Nil
  show ?case by (intro exI [of _ 0]) simp
next
  case (Cons t ts)
  obtain t1 t2 where t: "t = (t1, t2)" by (cases t)
  define u where "u = update_rotate rot3 rot4 t1 t2 v"
  obtain k where k: "cube_size u = cube_size v" "rotate_que u = drop k (rotate_que v)"
      "(cube u, cube4 u) = pending rot3 rot4 (cube_size v) (take k (rotate_que v)) (cube v, cube4 v)"
    using update_rotate_prefix [of rot3 rot4 t1 t2 v] unfolding u_def by blast
  obtain j where j: "cube_size (frames rot3 rot4 ts u) = cube_size u"
      "rotate_que (frames rot3 rot4 ts u) = drop j (rotate_que u)"
      "(cube (frames rot3 rot4 ts u), cube4 (frames rot3 rot4 ts u)) =
          pending rot3 rot4 (cube_size u) (take j (rotate_que u)) (cube u, cube4 u)"
    using Cons.IH [of u] by blast
  have "take (k + j) (rotate_que v) = take k (rotate_que v) @ take j (drop k (rotate_que v))"
    by (simp add: take_add)
  then show ?case
    unfolding t frames.simps u_def [symmetric]
    by (intro exI [of _ "k + j"]) (simp add: j k pending_append add.commute)
qed

text \<open>
  Claim C9. One call of \<^verbatim>\<open>update_rotate\<close>: if the rotation manager is still active
  after the call (the animation has not finished), both cubes and the queue are as they
  were; with an empty queue nothing changes at all; if the queue was not empty and the
  manager is idle after the call (the animation has finished), the move at the front has
  been applied once to the cube in use and popped. Over any run of frames, the queue is
  the old queue without its first \<open>k\<close> moves and the cubes are the old cubes with exactly
  those \<open>k\<close> moves applied, each once and in order.
\<close>

theorem update_rotate_applies_on_completion:
  "let v' = update_rotate rot3 rot4 t1 t2 v in
     (is_active (rotate_mgr v') \<longrightarrow>
        cube v' = cube v \<and> cube4 v' = cube4 v \<and> rotate_que v' = rotate_que v)
   \<and> (rotate_que v = [] \<longrightarrow> v' = v)
   \<and> (\<forall>f d n rest. rotate_que v = (f, d, n) # rest \<and> \<not> is_active (rotate_mgr v') \<longrightarrow>
        rotate_que v' = rest \<and>
        (cube v', cube4 v') =
          (if cube_size v = 3 then (rot3 f n (cube v), cube4 v) else (cube v, rot4 f d n (cube4 v))))
   \<and> (\<forall>ts. \<exists>k. rotate_que (frames rot3 rot4 ts v) = drop k (rotate_que v) \<and>
        (cube (frames rot3 rot4 ts v), cube4 (frames rot3 rot4 ts v)) =
          pending rot3 rot4 (cube_size v) (take k (rotate_que v)) (cube v, cube4 v))"
proof -
  define v' where "v' = update_rotate rot3 rot4 t1 t2 v"
  have 1: "is_active (rotate_mgr v') \<longrightarrow>
        cube v' = cube v \<and> cube4 v' = cube4 v \<and> rotate_que v' = rotate_que v"
  proof (cases "rotate_que v")
    case Nil
    then show ?thesis by (simp add: v'_def update_rotate_empty)
  next
    case (Cons a rest)
    obtain f d n where "a = (f, d, n)" by (cases a)
    with Cons have "rotate_que v = (f, d, n) # rest" by simp
    from update_rotate_step [OF this, of rot3 rot4 t1 t2] show ?thesis
      by (simp add: Let_def v'_def)
  qed
  have 2: "rotate_que v = [] \<longrightarrow> v' = v"
    by (simp add: v'_def update_rotate_empty)
  have 3: "rotate_que v' = rest \<and>
        (cube v', cube4 v') =
          (if cube_size v = 3 then (rot3 f n (cube v), cube4 v) else (cube v, rot4 f d n (cube4 v)))"
    if "rotate_que v = (f, d, n) # rest \<and> \<not> is_active (rotate_mgr v')" for f d n rest
    using update_rotate_step [of v f d n rest rot3 rot4 t1 t2] that
    by (simp add: Let_def v'_def)
  have 4: "\<exists>k. rotate_que (frames rot3 rot4 ts v) = drop k (rotate_que v) \<and>
        (cube (frames rot3 rot4 ts v), cube4 (frames rot3 rot4 ts v)) =
          pending rot3 rot4 (cube_size v) (take k (rotate_que v)) (cube v, cube4 v)" for ts
    using frames_prefix [of rot3 rot4 ts v] by blast
  show ?thesis
    unfolding Let_def v'_def [symmetric] using 1 2 3 4 by blast
qed

theorem update_rotate_applies_on_completion_witness:
  "(let v0 = add_rotate right_f 5 (set_rotate_duration (1/2) (viewer_gl_new [] (0::nat)));
        v1 = update_rotate (\<lambda>f n c. c @ [(f, n)]) (\<lambda>f d n c. c) 0 (1/4) v0;
        v2 = update_rotate (\<lambda>f n c. c @ [(f, n)]) (\<lambda>f d n c. c) (1/4) (1/2) v1
    in rotate_que v0 = [(right_f, 1, 1)] \<and> cube v0 = []
     \<and> is_active (rotate_mgr v1) \<and> rotate_que v1 = [(right_f, 1, 1)] \<and> cube v1 = []
     \<and> \<not> is_active (rotate_mgr v2) \<and> rotate_que v2 = [] \<and> cube v2 = [(right_f, 1)])"
proof -
  define v0 :: "((face_type \<times> int) list, nat) viewer_gl"
    where "v0 = add_rotate right_f 5 (set_rotate_duration (1/2) (viewer_gl_new [] (0::nat)))"
  define v1 where "v1 = update_rotate (\<lambda>f n c. c @ [(f, n)]) (\<lambda>f d n c. c) 0 (1/4) v0"
  have q0: "rotate_que v0 = [(right_f, 1, 1)]" "cube v0 = []" "cube_size v0 = 3"
      "\<not> is_active (rotate_mgr v0)" "rotate_duration v0 = 1/2"
    by (simp_all add: v0_def add_rotate_def add_rotate_depth_def set_rotate_duration_def
        viewer_gl_new_def is_active_def signed_modulo_int_def)
  have m1: "rotate_mgr v1 = \<lparr>t_s = 0, duration = 1/2, active = True\<rparr>"
    by (simp add: v1_def update_rotate_def q0 start_rotate_def rotate_manager_set_def
        rotate_manager_get_def Let_def v0_def add_rotate_def add_rotate_depth_def
        set_rotate_duration_def viewer_gl_new_def is_active_def)
  have a1: "is_active (rotate_mgr v1)"
    by (simp add: m1 is_active_def)
  have s1: "cube v1 = [] \<and> cube4 v1 = cube4 v0 \<and> rotate_que v1 = [(right_f, 1, 1)]"
    using update_rotate_applies_on_completion [of "\<lambda>f n c. c @ [(f, n)]" "\<lambda>f d n c. c" 0 "1/4" v0] a1
    by (simp add: Let_def v1_def [symmetric] q0)
  have c1: "cube_size v1 = 3"
    using update_rotate_step [of v0 right_f 1 1 "[]" "\<lambda>f n c. c @ [(f, n)]" "\<lambda>f d n c. c" 0 "1/4"]
    by (simp add: q0 Let_def v1_def [symmetric])
  define v2 where "v2 = update_rotate (\<lambda>f n c. c @ [(f, n)]) (\<lambda>f d n c. c) (1/4) (1/2) v1"
  have a2: "\<not> is_active (rotate_mgr v2)"
    by (simp add: v2_def update_rotate_def s1 a1 m1 rotate_manager_get_def Let_def is_active_def)
  have s2: "rotate_que v2 = [] \<and> cube v2 = [(right_f, 1)]"
    using update_rotate_applies_on_completion [of "\<lambda>f n c. c @ [(f, n)]" "\<lambda>f d n c. c" "1/4" "1/2" v1] a2
    by (simp add: Let_def v2_def [symmetric] s1 c1)
  show ?thesis
    unfolding Let_def v0_def [symmetric] v1_def [symmetric] v2_def [symmetric]
    using q0 a1 s1 a2 s2 by simp
qed


section \<open>Properties of the cube algebra\<close>

lemma cycle4_length [simp]: "length (cycle4 ps xs) = length xs"
  by (induction ps xs rule: cycle4.induct) simp_all

lemma bump4_length [simp]: "length (bump4 m ps ds xs) = length xs"
  by (induction m ps ds xs rule: bump4.induct) simp_all

lemma cycle4_nth:
  assumes "distinct [a, b, c, d]" "a < length xs" "b < length xs" "c < length xs" "d < length xs"
    "i < length xs"
  shows "cycle4 [a, b, c, d] xs ! i =
     (if i = a then xs ! d else if i = b then xs ! a else if i = c then xs ! b
      else if i = d then xs ! c else xs ! i)"
  using assms by (auto simp: nth_list_update)

lemma cycle4_order4:
  assumes "distinct [a, b, c, d]" "a < length xs" "b < length xs" "c < length xs" "d < length xs"
  shows "cycle4 [a, b, c, d] (cycle4 [a, b, c, d] (cycle4 [a, b, c, d] (cycle4 [a, b, c, d] xs))) = xs"
proof (rule nth_equalityI)
  show "length (cycle4 [a, b, c, d] (cycle4 [a, b, c, d] (cycle4 [a, b, c, d] (cycle4 [a, b, c, d] xs)))) = length xs"
    by (simp only: cycle4_length)
next
  fix i
  assume "i < length (cycle4 [a, b, c, d] (cycle4 [a, b, c, d] (cycle4 [a, b, c, d] (cycle4 [a, b, c, d] xs))))"
  then have i: "i < length xs" by (simp only: cycle4_length)
  have n: "cycle4 [a, b, c, d] ys ! j =
     (if j = a then ys ! d else if j = b then ys ! a else if j = c then ys ! b
      else if j = d then ys ! c else ys ! j)" if "length ys = length xs" "j < length xs" for ys j
    using cycle4_nth [OF assms(1), of ys j] assms(2-5) that by simp
  show "cycle4 [a, b, c, d] (cycle4 [a, b, c, d] (cycle4 [a, b, c, d] (cycle4 [a, b, c, d] xs))) ! i = xs ! i"
    using assms i by (simp add: n del: cycle4.simps)
qed


lemma bump4_nth:
  assumes "distinct [a, b, c, d]" "a < length xs" "b < length xs" "c < length xs" "d < length xs"
    "n < length xs"
  shows "bump4 m [a, b, c, d] [i, j, k, l] xs ! n =
     (if n = a then (xs ! a + i) mod m else if n = b then (xs ! b + j) mod m
      else if n = c then (xs ! c + k) mod m else if n = d then (xs ! d + l) mod m else xs ! n)"
  using assms by (auto simp: nth_list_update)

lemma turn4_length [simp]: "length (turn4 m ps ds xs) = length xs"
  by (simp add: turn4_def)

lemma turn4_nth:
  assumes "distinct [a, b, c, d]" "a < length xs" "b < length xs" "c < length xs" "d < length xs"
    "n < length xs"
  shows "turn4 m [a, b, c, d] [i, j, k, l] xs ! n =
     (if n = a then (xs ! d + l) mod m else if n = b then (xs ! a + i) mod m
      else if n = c then (xs ! b + j) mod m else if n = d then (xs ! c + k) mod m else xs ! n)"
proof -
  have len: "length (bump4 m [a, b, c, d] [i, j, k, l] xs) = length xs"
    by (rule bump4_length)
  have "turn4 m [a, b, c, d] [i, j, k, l] xs ! n =
     (if n = a then bump4 m [a, b, c, d] [i, j, k, l] xs ! d
      else if n = b then bump4 m [a, b, c, d] [i, j, k, l] xs ! a
      else if n = c then bump4 m [a, b, c, d] [i, j, k, l] xs ! b
      else if n = d then bump4 m [a, b, c, d] [i, j, k, l] xs ! c
      else bump4 m [a, b, c, d] [i, j, k, l] xs ! n)"
    unfolding turn4_def using assms(2-6)
    by (intro cycle4_nth [OF assms(1)]) (simp_all only: len)
  also have "\<dots> = (if n = a then (xs ! d + l) mod m else if n = b then (xs ! a + i) mod m
      else if n = c then (xs ! b + j) mod m else if n = d then (xs ! c + k) mod m else xs ! n)"
    using assms by (simp add: bump4_nth del: bump4.simps)
  finally show ?thesis .
qed

lemma mod_round:
  fixes x :: nat
  assumes "x < m" "(i + j + k + l) mod m = 0"
  shows "((((x + i) mod m + j) mod m + k) mod m + l) mod m = x"
proof -
  have "((((x + i) mod m + j) mod m + k) mod m + l) mod m = (x + (i + j + k + l)) mod m"
    by (simp add: mod_simps add.assoc)
  also have "\<dots> = (x + (i + j + k + l) mod m) mod m"
    by (simp add: mod_simps)
  also have "\<dots> = x" using assms by simp
  finally show ?thesis .
qed

lemma turn4_order4:
  assumes d: "distinct [a, b, c, d]" and r: "a < length xs" "b < length xs" "c < length xs" "d < length xs"
    and s: "(i + j + k + l) mod m = 0" "(j + k + l + i) mod m = 0" "(k + l + i + j) mod m = 0"
           "(l + i + j + k) mod m = 0"
    and x: "\<forall>n < length xs. xs ! n < m"
  shows "turn4 m [a, b, c, d] [i, j, k, l] (turn4 m [a, b, c, d] [i, j, k, l]
           (turn4 m [a, b, c, d] [i, j, k, l] (turn4 m [a, b, c, d] [i, j, k, l] xs))) = xs"
    (is "?t (?t (?t (?t xs))) = xs")
proof (rule nth_equalityI)
  show "length (?t (?t (?t (?t xs)))) = length xs"
    by (simp only: turn4_length)
next
  fix n
  assume "n < length (?t (?t (?t (?t xs))))"
  then have n: "n < length xs" by (simp only: turn4_length)
  have t: "?t ys ! p =
     (if p = a then (ys ! d + l) mod m else if p = b then (ys ! a + i) mod m
      else if p = c then (ys ! b + j) mod m else if p = d then (ys ! c + k) mod m else ys ! p)"
    if "length ys = length xs" "p < length xs" for ys p
    using turn4_nth [OF d, of ys p] r that by simp
  have xa: "xs ! a < m" "xs ! b < m" "xs ! c < m" "xs ! d < m"
    using x r by simp_all
  show "?t (?t (?t (?t xs))) ! n = xs ! n"
    using d r n mod_round [OF xa(1) s(1)] mod_round [OF xa(2) s(2)] mod_round [OF xa(3) s(3)]
      mod_round [OF xa(4) s(4)]
    by (simp add: t)
qed


lemma corner_cycle_shape:
  "\<exists>a b c d. corner_cycle f = [a, b, c, d] \<and> distinct [a, b, c, d] \<and> a < 8 \<and> b < 8 \<and> c < 8 \<and> d < 8"
  by (cases f) simp_all

lemma edge_cycle_shape:
  "\<exists>a b c d. edge_cycle f = [a, b, c, d] \<and> distinct [a, b, c, d] \<and> a < 12 \<and> b < 12 \<and> c < 12 \<and> d < 12"
  by (cases f) simp_all

lemma corner_twist_shape:
  "\<exists>i j k l. corner_twist f = [i, j, k, l] \<and> (i + j + k + l) mod 3 = 0 \<and> (j + k + l + i) mod 3 = 0
     \<and> (k + l + i + j) mod 3 = 0 \<and> (l + i + j + k) mod 3 = 0"
  by (cases f) simp_all

lemma edge_flip_shape:
  "\<exists>i j k l. edge_flip f = [i, j, k, l] \<and> (i + j + k + l) mod 2 = 0 \<and> (j + k + l + i) mod 2 = 0
     \<and> (k + l + i + j) mod 2 = 0 \<and> (l + i + j + k) mod 2 = 0"
  by (cases f) simp_all

lemma quarter_order4:
  assumes "in_range s"
  shows "quarter f (quarter f (quarter f (quarter f s))) = s"
proof -
  obtain a b c d where cc: "corner_cycle f = [a, b, c, d]" "distinct [a, b, c, d]"
      "a < 8" "b < 8" "c < 8" "d < 8"
    using corner_cycle_shape [of f] by auto
  obtain a' b' c' d' where ec: "edge_cycle f = [a', b', c', d']" "distinct [a', b', c', d']"
      "a' < 12" "b' < 12" "c' < 12" "d' < 12"
    using edge_cycle_shape [of f] by auto
  obtain i j k l where ct: "corner_twist f = [i, j, k, l]" "(i + j + k + l) mod 3 = 0"
      "(j + k + l + i) mod 3 = 0" "(k + l + i + j) mod 3 = 0" "(l + i + j + k) mod 3 = 0"
    using corner_twist_shape [of f] by auto
  obtain i' j' k' l' where ef: "edge_flip f = [i', j', k', l']" "(i' + j' + k' + l') mod 2 = 0"
      "(j' + k' + l' + i') mod 2 = 0" "(k' + l' + i' + j') mod 2 = 0" "(l' + i' + j' + k') mod 2 = 0"
    using edge_flip_shape [of f] by auto
  have len: "length (cp s) = 8" "length (co s) = 8" "length (ep s) = 12" "length (eo s) = 12"
    and rng: "\<forall>n < length (co s). co s ! n < 3" "\<forall>n < length (eo s). eo s ! n < 2"
    using assms by (simp_all add: in_range_def list_all_length)
  have 1: "cycle4 [a, b, c, d] (cycle4 [a, b, c, d] (cycle4 [a, b, c, d] (cycle4 [a, b, c, d] (cp s)))) = cp s"
    using cc len by (intro cycle4_order4) simp_all
  have 2: "cycle4 [a', b', c', d'] (cycle4 [a', b', c', d'] (cycle4 [a', b', c', d'] (cycle4 [a', b', c', d'] (ep s)))) = ep s"
    using ec len by (intro cycle4_order4) simp_all
  have 3: "turn4 3 [a, b, c, d] [i, j, k, l] (turn4 3 [a, b, c, d] [i, j, k, l]
           (turn4 3 [a, b, c, d] [i, j, k, l] (turn4 3 [a, b, c, d] [i, j, k, l] (co s)))) = co s"
    using cc len ct rng(1) by (intro turn4_order4) simp_all
  have 4: "turn4 2 [a', b', c', d'] [i', j', k', l'] (turn4 2 [a', b', c', d'] [i', j', k', l']
           (turn4 2 [a', b', c', d'] [i', j', k', l'] (turn4 2 [a', b', c', d'] [i', j', k', l'] (eo s)))) = eo s"
    using ec len ef rng(2) by (intro turn4_order4) simp_all
  show ?thesis
    unfolding quarter_def cc(1) ec(1) ct(1) ef(1)
    by (simp add: 1 2 3 4 del: cycle4.simps)
qed


lemma list_all_cycle4:
  assumes "distinct [a, b, c, d]" "a < length xs" "b < length xs" "c < length xs" "d < length xs"
    and "list_all P xs"
  shows "list_all P (cycle4 [a, b, c, d] xs)"
  unfolding list_all_length
proof (intro allI impI)
  fix n assume "n < length (cycle4 [a, b, c, d] xs)"
  then have n: "n < length xs" by (simp only: cycle4_length)
  show "P (cycle4 [a, b, c, d] xs ! n)"
    using assms(2-6) n unfolding cycle4_nth [OF assms(1-5) n] list_all_length by simp
qed

lemma list_all_turn4:
  assumes "distinct [a, b, c, d]" "a < length xs" "b < length xs" "c < length xs" "d < length xs"
    and "list_all (\<lambda>x. x < m) xs" and "0 < m"
  shows "list_all (\<lambda>x. x < m) (turn4 m [a, b, c, d] [i, j, k, l] xs)"
  unfolding list_all_length
proof (intro allI impI)
  fix n assume "n < length (turn4 m [a, b, c, d] [i, j, k, l] xs)"
  then have n: "n < length xs" by (simp only: turn4_length)
  show "turn4 m [a, b, c, d] [i, j, k, l] xs ! n < m"
    using assms(2-7) n unfolding turn4_nth [OF assms(1-5) n] list_all_length by simp
qed

lemma quarter_in_range:
  assumes "in_range s" shows "in_range (quarter f s)"
proof -
  obtain a b c d where cc: "corner_cycle f = [a, b, c, d]" "distinct [a, b, c, d]"
      "a < 8" "b < 8" "c < 8" "d < 8"
    using corner_cycle_shape [of f] by auto
  obtain a' b' c' d' where ec: "edge_cycle f = [a', b', c', d']" "distinct [a', b', c', d']"
      "a' < 12" "b' < 12" "c' < 12" "d' < 12"
    using edge_cycle_shape [of f] by auto
  obtain i j k l where ct: "corner_twist f = [i, j, k, l]"
    using corner_twist_shape [of f] by auto
  obtain i' j' k' l' where ef: "edge_flip f = [i', j', k', l']"
    using edge_flip_shape [of f] by auto
  have len: "length (cp s) = 8" "length (co s) = 8" "length (ep s) = 12" "length (eo s) = 12"
    and rng: "list_all (\<lambda>x. x < 8) (cp s)" "list_all (\<lambda>x. x < 3) (co s)"
      "list_all (\<lambda>x. x < 12) (ep s)" "list_all (\<lambda>x. x < 2) (eo s)"
    using assms by (simp_all add: in_range_def)
  have 1: "list_all (\<lambda>x. x < 8) (cycle4 [a, b, c, d] (cp s))"
    using cc len rng by (intro list_all_cycle4) simp_all
  have 2: "list_all (\<lambda>x. x < 12) (cycle4 [a', b', c', d'] (ep s))"
    using ec len rng by (intro list_all_cycle4) simp_all
  have 3: "list_all (\<lambda>x. x < 3) (turn4 3 [a, b, c, d] [i, j, k, l] (co s))"
    using cc len rng by (intro list_all_turn4) simp_all
  have 4: "list_all (\<lambda>x. x < 2) (turn4 2 [a', b', c', d'] [i', j', k', l'] (eo s))"
    using ec len rng by (intro list_all_turn4) simp_all
  show ?thesis
    unfolding in_range_def quarter_def cc(1) ec(1) ct(1) ef(1)
    using 1 2 3 4 len by (simp del: cycle4.simps)
qed

lemma funpow_quarter_in_range: "in_range s \<Longrightarrow> in_range ((quarter f ^^ n) s)"
  by (induction n) (simp_all add: quarter_in_range)

lemma rotate_in_range: "in_range s \<Longrightarrow> in_range (rotate_cube f t s)"
  by (simp add: rotate_cube_def funpow_quarter_in_range)

lemma solved_in_range: "in_range solved"
  by (simp add: in_range_def solved_def)

lemma reachable_in_range: "reachable s \<Longrightarrow> in_range s"
  by (induction rule: reachable.induct) (simp_all add: solved_in_range rotate_in_range)

lemma funpow_quarter_4: "in_range s \<Longrightarrow> (quarter f ^^ 4) s = s"
  using quarter_order4 [of s f] by (simp add: eval_nat_numeral)

lemma funpow_quarter_mod: "in_range s \<Longrightarrow> (quarter f ^^ n) s = (quarter f ^^ (n mod 4)) s"
proof (induction n rule: less_induct)
  case (less n)
  show ?case
  proof (cases "n < 4")
    case True
    then show ?thesis by simp
  next
    case False
    then have n: "n = (n - 4) + 4" by simp
    have "(quarter f ^^ n) s = (quarter f ^^ (n - 4)) ((quarter f ^^ 4) s)"
      by (subst n) (simp only: funpow_add o_apply)
    also have "\<dots> = (quarter f ^^ (n - 4)) s"
      using less.prems by (simp only: funpow_quarter_4)
    also have "\<dots> = (quarter f ^^ ((n - 4) mod 4)) s"
      using False less.prems by (intro less.IH) simp_all
    also have "(n - 4) mod 4 = n mod 4"
      using False by (simp add: le_mod_geq)
    finally show ?thesis .
  qed
qed

lemma rotate_add:
  assumes "in_range s"
  shows "rotate_cube f a (rotate_cube f b s) = rotate_cube f (a + b) s"
proof -
  have "rotate_cube f a (rotate_cube f b s) = (quarter f ^^ (nat (a mod 4) + nat (b mod 4))) s"
    by (simp add: rotate_cube_def funpow_add)
  also have "\<dots> = (quarter f ^^ ((nat (a mod 4) + nat (b mod 4)) mod 4)) s"
    using assms by (rule funpow_quarter_mod)
  also have "(nat (a mod 4) + nat (b mod 4)) mod 4 = nat ((a + b) mod 4)"
  proof -
    have "int ((nat (a mod 4) + nat (b mod 4)) mod 4) = (a mod 4 + b mod 4) mod 4"
      by (simp add: zmod_int)
    also have "\<dots> = (a + b) mod 4" by (simp add: mod_simps)
    finally show ?thesis by linarith
  qed
  finally show ?thesis by (simp add: rotate_cube_def)
qed

lemma rotate_0: "rotate_cube f 0 s = s"
  by (simp add: rotate_cube_def)

lemma rotate_inverse:
  assumes "in_range s" shows "rotate_cube f (4 - t) (rotate_cube f t s) = s"
proof -
  have "rotate_cube f (4 - t) (rotate_cube f t s) = rotate_cube f (4 - t + t) s"
    using assms by (rule rotate_add)
  also have "\<dots> = s" by (simp add: rotate_cube_def)
  finally show ?thesis .
qed

lemma smod4_mod4: "(t smod 4) mod 4 = (t :: int) mod 4"
proof (cases "0 \<le> t")
  case True
  then show ?thesis by (cases "t = 0") (simp_all add: signed_modulo_int_def sgn_if)
next
  case False
  then have "t smod 4 = - ((- t) mod 4)"
    by (simp add: signed_modulo_int_def sgn_if)
  then show ?thesis by presburger
qed

lemma and3_mod4: "(x :: int) AND 3 = x mod 4"
proof -
  have "(3::int) = mask 2" by (simp add: mask_eq_exp_minus_1)
  then have "x AND 3 = take_bit 2 x" by (simp add: take_bit_eq_mask)
  then show ?thesis by (simp add: take_bit_eq_mod)
qed

lemma shown_turns_mod4: "shown_turns t = t mod 4"
proof -
  have "shown_turns t = (t smod 4 + 4) mod 4"
    by (simp add: shown_turns_def and3_mod4)
  also have "\<dots> = (t smod 4) mod 4" by simp
  finally show ?thesis by (simp add: smod4_mod4)
qed

lemma rotate_smod4: "rotate_cube f (t smod 4) s = rotate_cube f (t mod 4) s"
  by (simp add: rotate_cube_def smod4_mod4)

text \<open>
  Claim C5. For every reachable cube state \<open>s\<close> and every move \<open>m\<close>, applying \<open>m\<close> and
  then the inverse of \<open>m\<close> gives \<open>s\<close> back.
\<close>

theorem move_then_inverse_restores:
  assumes "reachable s"
  shows "apply_move (apply_move s m) (inverse_move m) = s"
proof -
  obtain f t where m: "m = (f, t)" by (cases m)
  have "in_range s" using assms by (rule reachable_in_range)
  then show ?thesis unfolding m by (simp add: rotate_inverse)
qed

theorem move_then_inverse_restores_witness:
  "reachable (rotate_cube right_f 1 solved)
   \<and> apply_move (apply_move (rotate_cube right_f 1 solved) (top_f, 1)) (inverse_move (top_f, 1))
       = rotate_cube right_f 1 solved"
proof -
  have r: "reachable (rotate_cube right_f 1 solved)"
    by (intro reachable_rotate reachable_solved)
  from move_then_inverse_restores [OF r, of "(top_f, 1)"] r show ?thesis by simp
qed

text \<open>
  Claim C6. For every integer turn count \<open>t\<close>, zero and negative ones included: the
  rotation by \<open>t\<close> is the rotation by \<open>t mod 4\<close>; so is the rotation by the truncating
  remainder \<^verbatim>\<open>t % 4\<close> that \<^verbatim>\<open>add_rotate\<close> queues; the count that the key callback prints,
  \<^verbatim>\<open>(t % 4 + 4) & 3\<close>, is \<open>t mod 4\<close>; and when the viewer finishes the animation of a move
  queued with count \<open>t\<close>, its cube has been rotated by \<open>t mod 4\<close>.
\<close>

theorem turn_count_reduced_mod_4:
  "rotate_cube f t s = rotate_cube f (t mod 4) s
   \<and> rotate_cube f (t smod 4) s = rotate_cube f (t mod 4) s
   \<and> shown_turns t = t mod 4
   \<and> rotate_que (add_rotate f t v) = rotate_que v @ [(f, 1, t smod 4)]
   \<and> (rotate_que v = [] \<and> cube_size v = 3
        \<and> \<not> is_active (rotate_mgr (update_rotate rotate_cube rot4 t1 t2 (add_rotate f t v)))
      \<longrightarrow> cube (update_rotate rotate_cube rot4 t1 t2 (add_rotate f t v)) = rotate_cube f (t mod 4) (cube v))"
proof -
  have 1: "rotate_cube f t s = rotate_cube f (t mod 4) s"
    by (simp add: rotate_cube_def)
  have 4: "rotate_que (add_rotate f t v) = rotate_que v @ [(f, 1, t smod 4)]"
    by (simp add: add_rotate_def add_rotate_depth_def)
  have 5: "cube (update_rotate rotate_cube rot4 t1 t2 (add_rotate f t v)) = rotate_cube f (t mod 4) (cube v)"
    if a: "rotate_que v = []" "cube_size v = 3"
      "\<not> is_active (rotate_mgr (update_rotate rotate_cube rot4 t1 t2 (add_rotate f t v)))"
  proof -
    have q: "rotate_que (add_rotate f t v) = (f, 1, t smod 4) # []"
      using 4 a(1) by simp
    have c: "cube_size (add_rotate f t v) = 3" "cube (add_rotate f t v) = cube v"
      using a(2) by (simp_all add: add_rotate_def add_rotate_depth_def)
    from update_rotate_step [OF q, of rotate_cube rot4 t1 t2] a(3)
    show ?thesis by (simp add: Let_def c rotate_smod4)
  qed
  show ?thesis using 1 rotate_smod4 shown_turns_mod4 4 5 by blast
qed

theorem turn_count_reduced_mod_4_witness:
  "rotate_cube right_f (- 1) solved = rotate_cube right_f 3 solved
   \<and> rotate_cube right_f ((- 1) smod 4) solved = rotate_cube right_f 3 solved
   \<and> (- 1 :: int) smod 4 = - 1
   \<and> shown_turns (- 1) = 3
   \<and> cube (update_rotate rotate_cube (\<lambda>f d n c. c) 0 1
        (add_rotate right_f (- 1) (viewer_gl_new solved (0::nat)))) = rotate_cube right_f 3 solved"
proof -
  define v :: "(cube_t, nat) viewer_gl" where "v = viewer_gl_new solved 0"
  have v: "rotate_que v = []" "cube_size v = 3" "cube v = solved"
    by (simp_all add: v_def viewer_gl_new_def)
  have s: "(- 1 :: int) smod 4 = - 1"
    by (simp add: signed_modulo_int_def)
  have a: "\<not> is_active (rotate_mgr (update_rotate rotate_cube (\<lambda>f d n c. c) 0 1 (add_rotate right_f (- 1) v)))"
    by (simp add: update_rotate_def add_rotate_def add_rotate_depth_def v_def viewer_gl_new_def
        is_active_def start_rotate_def rotate_manager_set_def rotate_manager_get_def Let_def)
  from turn_count_reduced_mod_4 [of right_f "- 1" solved v "\<lambda>f d n c. c" 0 1] a
  show ?thesis
    unfolding v_def [symmetric] by (simp add: v signed_modulo_int_def)
qed


section \<open>Properties of the coordinate encoders\<close>

subsection \<open>Digits\<close>



lemma length_to_digits: "length (to_digits b n c) = n"
  by (induction n arbitrary: c) simp_all

lemma to_digits_less: "0 < b \<Longrightarrow> d \<in> set (to_digits b n c) \<Longrightarrow> d < b"
  by (induction n arbitrary: c) auto



subsection \<open>Orientation coordinates\<close>









lemma complement_digit:
  fixes t :: nat
  assumes "0 < m"
  shows "(t + (m - t mod m) mod m) mod m = 0"
proof (cases "t mod m = 0")
  case True
  then show ?thesis by simp
next
  case False
  then have "m - t mod m < m" using assms by simp
  then have "(m - t mod m) mod m = m - t mod m" by (rule mod_less)
  moreover have "(t + (m - t mod m)) mod m = (t mod m + (m - t mod m)) mod m"
    by (simp add: mod_simps)
  moreover have "t mod m + (m - t mod m) = m"
    using assms by (simp add: less_imp_le)
  ultimately show ?thesis by simp
qed

lemma orient_shape:
  assumes "0 < m"
  shows "length (to_digits m n c @ [(m - sum_list (to_digits m n c) mod m) mod m]) = Suc n
     \<and> list_all (\<lambda>x. x < m) (to_digits m n c @ [(m - sum_list (to_digits m n c) mod m) mod m])
     \<and> sum_list (to_digits m n c @ [(m - sum_list (to_digits m n c) mod m) mod m]) mod m = 0"
  using assms to_digits_less [OF assms, of _ n c] complement_digit [OF assms, of "sum_list (to_digits m n c)"]
  by (simp add: length_to_digits list_all_iff)

lemma decode_twist_shape:
  "length (decode_twist c) = 8 \<and> list_all (\<lambda>x. x < 3) (decode_twist c) \<and> sum_list (decode_twist c) mod 3 = 0"
  unfolding decode_twist_def Let_def using orient_shape [of 3 7 c] by simp

lemma decode_flip_shape:
  "length (decode_flip c) = 12 \<and> list_all (\<lambda>x. x < 2) (decode_flip c) \<and> sum_list (decode_flip c) mod 2 = 0"
  unfolding decode_flip_def Let_def using orient_shape [of 2 11 c] by simp

subsection \<open>Placements\<close>






subsection \<open>Lehmer ranks\<close>


































section \<open>Properties of the pruning tables\<close>

lemma keeps_refl: "keeps d u u"
  by (simp add: keeps_def)

lemma keeps_trans:
  assumes "d + 1 \<noteq> 15" "keeps d u u'" "keeps d u' u''"
  shows "keeps d u u''"
  using assms unfolding keeps_def by (metis)

lemma keeps_relax: "keeps d u (relax d u x)"
  by (auto simp: keeps_def relax_def nth_list_update)

lemma relax_set:
  assumes "d + 1 \<noteq> 15" "x < length u" shows "relax d u x ! x \<noteq> 15"
  using assms by (simp add: relax_def)

lemma keeps_set:
  assumes "d + 1 \<noteq> 15" "keeps d u u'" "y < length u" "u ! y \<noteq> 15" shows "u' ! y \<noteq> 15"
  using assms unfolding keeps_def by metis

lemma inner_fold:
  assumes d: "d + 1 \<noteq> 15" and cl: "\<forall>m \<in> set ms. nxt c m < length u"
  shows "keeps d u (foldl (\<lambda>t m. relax d t (nxt c m)) u ms)
       \<and> (\<forall>m \<in> set ms. foldl (\<lambda>t m. relax d t (nxt c m)) u ms ! nxt c m \<noteq> 15)"
  using cl
proof (induction ms arbitrary: u)
  case Nil
  show ?case by (simp add: keeps_refl)
next
  case (Cons m ms)
  define u1 where "u1 = relax d u (nxt c m)"
  have k1: "keeps d u u1" unfolding u1_def by (rule keeps_relax)
  have l1: "length u1 = length u" unfolding u1_def by (rule relax_length)
  have s1: "u1 ! nxt c m \<noteq> 15" unfolding u1_def using d Cons.prems by (intro relax_set) simp_all
  have "\<forall>m \<in> set ms. nxt c m < length u1" using Cons.prems l1 by simp
  from Cons.IH [OF this]
  have ih: "keeps d u1 (foldl (\<lambda>t m. relax d t (nxt c m)) u1 ms)"
    "\<forall>m \<in> set ms. foldl (\<lambda>t m. relax d t (nxt c m)) u1 ms ! nxt c m \<noteq> 15" by simp_all
  have "foldl (\<lambda>t m. relax d t (nxt c m)) u1 ms ! nxt c m \<noteq> 15"
    using keeps_set [OF d ih(1) _ s1] Cons.prems l1 by simp
  then show ?case
    using keeps_trans [OF d k1 ih(1)] ih(2) by (simp add: u1_def [symmetric])
qed

lemma expand_post:
  assumes d: "d + 1 \<noteq> 15" and cl: "\<forall>m \<in> set moves. nxt c m < length u"
  shows "keeps d u (expand nxt moves d u c)
       \<and> (u ! c = d \<longrightarrow> (\<forall>m \<in> set moves. expand nxt moves d u c ! nxt c m \<noteq> 15))"
  using inner_fold [where nxt = nxt and c = c and d = d and u = u and ms = moves, OF d cl]
  by (simp add: expand_def keeps_refl)

lemma outer_fold:
  assumes d: "d + 1 \<noteq> 15" "d \<noteq> 15" and cl: "closed_table nxt moves (length t)"
    and k: "keeps d t u" and xs: "\<forall>c \<in> set xs. c < length t"
  shows "keeps d t (foldl (expand nxt moves d) u xs)
       \<and> (\<forall>c \<in> set xs. t ! c = d \<longrightarrow> (\<forall>m \<in> set moves. foldl (expand nxt moves d) u xs ! nxt c m \<noteq> 15))"
  using k xs
proof (induction xs arbitrary: u)
  case Nil
  then show ?case by simp
next
  case (Cons c xs)
  have lu: "length u = length t" using Cons.prems(1) by (simp add: keeps_def)
  have c: "c < length t" using Cons.prems(2) by simp
  have clc: "\<forall>m \<in> set moves. nxt c m < length u"
    using cl c unfolding closed_table_def lu by blast
  define u1 where "u1 = expand nxt moves d u c"
  have e: "keeps d u u1" "u ! c = d \<longrightarrow> (\<forall>m \<in> set moves. u1 ! nxt c m \<noteq> 15)"
    unfolding u1_def
    using expand_post [where nxt = nxt and c = c and d = d and u = u and moves = moves, OF d(1) clc]
    by simp_all
  have k1: "keeps d t u1" using keeps_trans [OF d(1) Cons.prems(1) e(1)] .
  have tc: "t ! c = d \<Longrightarrow> u ! c = d"
    using Cons.prems(1) c d unfolding keeps_def by metis
  have "\<forall>c \<in> set xs. c < length t" using Cons.prems(2) by simp
  from Cons.IH [OF k1 this]
  have ih: "keeps d t (foldl (expand nxt moves d) u1 xs)"
    "\<forall>c \<in> set xs. t ! c = d \<longrightarrow> (\<forall>m \<in> set moves. foldl (expand nxt moves d) u1 xs ! nxt c m \<noteq> 15)"
    by simp_all
  have kk: "keeps d u1 (foldl (expand nxt moves d) u1 xs)"
  proof -
    have "keeps d v (foldl (expand nxt moves d) v ys)" for v ys
    proof (induction ys arbitrary: v)
      case Nil show ?case by (simp add: keeps_refl)
    next
      case (Cons y ys)
      have "keeps d v (expand nxt moves d v y)"
        unfolding expand_def
      proof (cases "v ! y = d")
        case True
        have "keeps d w (foldl (\<lambda>t m. relax d t (nxt y m)) w ms)" for w ms
        proof (induction ms arbitrary: w)
          case Nil show ?case by (simp add: keeps_refl)
        next
          case (Cons m ms)
          show ?case using keeps_trans [OF d(1) keeps_relax [of d w "nxt y m"] Cons.IH] by simp
        qed
        then show "keeps d v (if v ! y = d then foldl (\<lambda>t m. relax d t (nxt y m)) v moves else v)"
          using True by simp
      next
        case False
        then show "keeps d v (if v ! y = d then foldl (\<lambda>t m. relax d t (nxt y m)) v moves else v)"
          by (simp add: keeps_refl)
      qed
      from keeps_trans [OF d(1) this Cons.IH] show ?case by simp
    qed
    then show ?thesis .
  qed
  have "\<forall>m \<in> set moves. foldl (expand nxt moves d) u1 xs ! nxt c m \<noteq> 15" if "t ! c = d"
  proof
    fix m assume m: "m \<in> set moves"
    have "u1 ! nxt c m \<noteq> 15" using e(2) tc [OF that] m by blast
    moreover have "nxt c m < length u1" using clc m e(1) by (simp add: keeps_def)
    ultimately show "foldl (expand nxt moves d) u1 xs ! nxt c m \<noteq> 15"
      using keeps_set [OF d(1) kk] by blast
  qed
  then show ?case using ih by (simp add: u1_def [symmetric])
qed

lemma pass_post:
  assumes d: "d \<le> 13" and cl: "closed_table nxt moves (length t)"
  shows "keeps d t (flood_pass nxt moves d t)
       \<and> (\<forall>c < length t. t ! c = d \<longrightarrow> (\<forall>m \<in> set moves. flood_pass nxt moves d t ! nxt c m \<noteq> 15))"
proof -
  have "d + 1 \<noteq> 15" "d \<noteq> 15" using d by simp_all
  from outer_fold [OF this cl keeps_refl, of "[0..<length t]"]
  show ?thesis unfolding flood_pass_def by simp
qed

lemma flooded_step:
  assumes d: "d \<le> 13" and cl: "closed_table nxt moves (length t)" and f: "flooded nxt moves goal d t"
  shows "flooded nxt moves goal (d + 1) (flood_pass nxt moves d t)"
proof -
  define t' where "t' = flood_pass nxt moves d t"
  have k: "keeps d t t'" and s: "\<forall>c < length t. t ! c = d \<longrightarrow> (\<forall>m \<in> set moves. t' ! nxt c m \<noteq> 15)"
    unfolding t'_def using pass_post [OF d cl] by simp_all
  have len: "length t' = length t" using k by (simp add: keeps_def)
  have kk: "t' ! y = t ! y \<or> (t ! y = 15 \<and> t' ! y = d + 1)" if "y < length t" for y
    using k that by (simp add: keeps_def)
  have g: "goal < length t" "t ! goal = 0"
    and a: "\<forall>c < length t. t ! c \<le> d \<or> t ! c = 15"
    and b: "\<forall>c < length t. t ! c < d \<longrightarrow> (\<forall>m \<in> set moves. t ! nxt c m \<le> t ! c + 1)"
    using f by (simp_all add: flooded_def)
  have 1: "t' ! goal = 0" using kk [OF g(1)] g(2) by simp
  have 2: "t' ! c \<le> d + 1 \<or> t' ! c = 15" if "c < length t" for c
  proof -
    have "t ! c \<le> d \<or> t ! c = 15" using a that by blast
    then show ?thesis using kk [OF that] by auto
  qed
  have 3: "t' ! nxt c m \<le> t' ! c + 1" if c: "c < length t" and lt: "t' ! c < d + 1" and m: "m \<in> set moves" for c m
  proof -
    have n: "nxt c m < length t" using cl c m by (simp add: closed_table_def)
    have tc: "t' ! c = t ! c" using kk [OF c] lt by auto
    show ?thesis
    proof (cases "t ! c < d")
      case True
      then have le: "t ! nxt c m \<le> t ! c + 1" using b c m by blast
      then have "t ! nxt c m \<noteq> 15" using True d by simp
      then have "t' ! nxt c m = t ! nxt c m" using kk [OF n] by simp
      then show ?thesis using le tc by simp
    next
      case False
      then have e: "t ! c = d" using lt tc by simp
      then have ne: "t' ! nxt c m \<noteq> 15" using s c m by blast
      from kk [OF n] show ?thesis
      proof
        assume eq: "t' ! nxt c m = t ! nxt c m"
        then have "t ! nxt c m \<le> d" using a n ne by auto
        then show ?thesis using eq tc e by simp
      next
        assume "t ! nxt c m = 15 \<and> t' ! nxt c m = d + 1"
        then show ?thesis using tc e by simp
      qed
    qed
  qed
  show ?thesis
    unfolding flooded_def t'_def [symmetric] len using g(1) 1 2 3 by blast
qed

lemma flooded_fixed:
  assumes d: "d \<le> 14" and cl: "closed_table nxt moves (length t)" and f: "flooded nxt moves goal d t"
    and fx: "flood_pass nxt moves d t = t"
  shows "consistent nxt moves goal t"
proof -
  have g: "goal < length t" "t ! goal = 0"
    and a: "\<forall>c < length t. t ! c \<le> d \<or> t ! c = 15"
    and b: "\<forall>c < length t. t ! c < d \<longrightarrow> (\<forall>m \<in> set moves. t ! nxt c m \<le> t ! c + 1)"
    using f by (simp_all add: flooded_def)
  have 1: "t ! c \<le> 15" if "c < length t" for c
  proof -
    have "t ! c \<le> d \<or> t ! c = 15" using a that by blast
    then show ?thesis using d by auto
  qed
  have 2: "t ! nxt c m \<le> t ! c + 1" if c: "c < length t" and lt: "t ! c < 15" and m: "m \<in> set moves" for c m
  proof -
    have n: "nxt c m < length t" using cl c m by (simp add: closed_table_def)
    have le: "t ! c \<le> d" using a c lt by auto
    show ?thesis
    proof (cases "t ! c < d")
      case True
      then show ?thesis using b c m by blast
    next
      case False
      then have e: "t ! c = d" using le by simp
      show ?thesis
      proof (cases "d = 14")
        case True
        then show ?thesis using 1 [OF n] e by simp
      next
        case False
        then have "d \<le> 13" using d by simp
        from pass_post [OF this cl] have "t ! nxt c m \<noteq> 15"
          unfolding fx using c e m by blast
        then have "t ! nxt c m \<le> d" using a n by auto
        then show ?thesis using e by simp
      qed
    qed
  qed
  show ?thesis unfolding consistent_def using g 1 2 by blast
qed

lemma relax_14: "relax 14 u x = u"
  by (simp add: relax_def) (metis list_update_id)

lemma flood_pass_14: "flood_pass nxt moves 14 t = t"
proof -
  have i: "foldl (\<lambda>t m. relax 14 t (nxt c m)) u ms = u" for c u ms
    by (induction ms) (simp_all add: relax_14)
  have e: "expand nxt moves 14 u c = u" for u c
    by (simp add: expand_def i)
  have "foldl (expand nxt moves 14) u xs = u" for u xs
    by (induction xs) (simp_all add: e)
  then show ?thesis by (simp add: flood_pass_def)
qed

lemma flood_pass_length: "length (flood_pass nxt moves d t) = length t"
  using settles_pass [of t nxt moves d] by (simp add: settles_def)

lemma flood_from_consistent:
  "d \<le> 14 \<Longrightarrow> closed_table nxt moves (length t) \<Longrightarrow> flooded nxt moves goal d t \<Longrightarrow>
     consistent nxt moves goal (flood_from nxt moves d t) \<and> length (flood_from nxt moves d t) = length t"
proof (induction nxt moves d t rule: flood_from.induct)
  case (1 nxt moves d t)
  show ?case
  proof (cases "flood_pass nxt moves d t = t")
    case True
    then have "flood_from nxt moves d t = t"
      by (simp add: flood_from.simps [of nxt moves d t])
    then show ?thesis using flooded_fixed [OF "1.prems" True] by simp
  next
    case False
    then have "d \<noteq> 14" using flood_pass_14 [of nxt moves t] by auto
    then have d: "d \<le> 13" using "1.prems"(1) by simp
    have ff: "flood_from nxt moves d t = flood_from nxt moves (d + 1) (flood_pass nxt moves d t)"
      using False by (simp add: flood_from.simps [of nxt moves d t])
    have "consistent nxt moves goal (flood_from nxt moves (d + 1) (flood_pass nxt moves d t)) \<and>
      length (flood_from nxt moves (d + 1) (flood_pass nxt moves d t)) = length (flood_pass nxt moves d t)"
    proof (rule "1.IH" [OF refl])
      show "flood_pass nxt moves d t \<noteq> t" by (rule False)
      show "d + 1 \<le> 14" using d by simp
      show "closed_table nxt moves (length (flood_pass nxt moves d t))"
        using "1.prems"(2) by (simp only: flood_pass_length)
      show "flooded nxt moves goal (d + 1) (flood_pass nxt moves d t)"
        using d "1.prems"(2,3) by (rule flooded_step)
    qed
    then show ?thesis unfolding ff by (simp only: flood_pass_length) 
  qed
qed

lemma build_table_consistent:
  assumes "closed_table nxt moves n" "goal < n"
  shows "consistent nxt moves goal (build_table nxt moves n goal)"
    and "length (build_table nxt moves n goal) = n"
proof -
  define t0 where "t0 = (replicate n (15::nat))[goal := 0]"
  have l: "length t0 = n" by (simp add: t0_def)
  have "flooded nxt moves goal 0 t0"
    using assms(2) by (auto simp: flooded_def t0_def nth_list_update)
  from flood_from_consistent [OF _ _ this] assms(1)
  show "consistent nxt moves goal (build_table nxt moves n goal)"
    and "length (build_table nxt moves n goal) = n"
    unfolding build_table_def t0_def [symmetric] l by simp_all
qed

lemma consistent_forward:
  assumes c: "consistent nxt moves goal t" and cl: "closed_table nxt moves (length t)"
    and ms: "set ms \<subseteq> set moves"
  shows "foldl nxt goal ms < length t \<and> t ! foldl nxt goal ms \<le> length ms"
  using ms
proof (induction ms rule: rev_induct)
  case Nil
  show ?case using c by (simp add: consistent_def)
next
  case (snoc m ms)
  define c0 where "c0 = foldl nxt goal ms"
  have ih: "c0 < length t" "t ! c0 \<le> length ms" and m: "m \<in> set moves"
    using snoc unfolding c0_def by simp_all
  have n: "nxt c0 m < length t" using cl ih(1) m by (simp add: closed_table_def)
  have r: "t ! nxt c0 m \<le> 15" using c n by (simp add: consistent_def)
  have "t ! nxt c0 m \<le> length ms + 1"
  proof (cases "t ! c0 < 15")
    case True
    then have "t ! nxt c0 m \<le> t ! c0 + 1" using c ih(1) m unfolding consistent_def by blast
    then show ?thesis using ih(2) by simp
  next
    case False
    then have "15 \<le> length ms" using ih(2) by simp
    then show ?thesis using r by simp
  qed
  then show ?case using n by (simp add: c0_def)
qed

lemma backward_path:
  assumes cl: "closed_table nxt moves n"
    and inv: "\<forall>c < n. \<forall>m \<in> set moves. \<exists>m' \<in> set moves. nxt (nxt c m) m' = c"
  shows "c < n \<Longrightarrow> set ms \<subseteq> set moves \<Longrightarrow> foldl nxt c ms = goal \<Longrightarrow>
     \<exists>ms'. length ms' = length ms \<and> set ms' \<subseteq> set moves \<and> foldl nxt goal ms' = c"
proof (induction ms arbitrary: c)
  case Nil
  then show ?case by (intro exI [of _ "[]"]) simp
next
  case (Cons m ms)
  have m: "m \<in> set moves" and ms: "set ms \<subseteq> set moves" using Cons.prems(2) by simp_all
  have n: "nxt c m < n" using cl Cons.prems(1) m by (simp add: closed_table_def)
  have "foldl nxt (nxt c m) ms = goal" using Cons.prems(3) by simp
  from Cons.IH [OF n ms this] obtain ms' where
    ms': "length ms' = length ms" "set ms' \<subseteq> set moves" "foldl nxt goal ms' = nxt c m" by blast
  obtain m' where m': "m' \<in> set moves" "nxt (nxt c m) m' = c"
    using inv Cons.prems(1) m by blast
  show ?case
    using ms' m' by (intro exI [of _ "ms' @ [m']"]) simp
qed

text \<open>
  Claim C3. Let the move table stay inside the domain and let every allowed move have
  an allowed inverse. For every coordinate \<open>c\<close> and every sequence of allowed moves that
  takes \<open>c\<close> to the goal: the entry of \<open>c\<close> is at most 15; if it is below 15 it is at most
  the length of the sequence; if it is 15 the sequence has at least 15 moves. So an entry
  below 15 never exceeds the shortest distance, and 0xF says only "15 or more".
\<close>

theorem pruning_entry_is_lower_bound:
  assumes "closed_table nxt moves n" and "goal < n"
    and "\<forall>c < n. \<forall>m \<in> set moves. \<exists>m' \<in> set moves. nxt (nxt c m) m' = c"
    and "c < n" and "set ms \<subseteq> set moves" and "foldl nxt c ms = goal"
  shows "build_table nxt moves n goal ! c \<le> 15
       \<and> (build_table nxt moves n goal ! c < 15 \<longrightarrow> build_table nxt moves n goal ! c \<le> length ms)
       \<and> (build_table nxt moves n goal ! c = 15 \<longrightarrow> 15 \<le> length ms)"
proof -
  define t where "t = build_table nxt moves n goal"
  have c: "consistent nxt moves goal t" and l: "length t = n"
    unfolding t_def using build_table_consistent [OF assms(1,2)] by simp_all
  obtain ms' where ms': "length ms' = length ms" "set ms' \<subseteq> set moves" "foldl nxt goal ms' = c"
    using backward_path [OF assms(1,3,4,5,6)] by blast
  have "t ! c \<le> length ms"
    using consistent_forward [OF c _ ms'(2)] assms(1) unfolding l ms'(1) ms'(3) by simp
  moreover have "t ! c \<le> 15" using c assms(4) l by (simp add: consistent_def)
  ultimately show ?thesis unfolding t_def [symmetric] by simp
qed

lemma table_mod6: "build_table (\<lambda>c m. (c + m) mod 6) [1, 5 :: nat] 6 0 = [0, 1, 2, 3, 2, 1]"
  by code_simp

theorem pruning_entry_is_lower_bound_witness:
  "build_table (\<lambda>c m. (c + m) mod 6) [1, 5 :: nat] 6 0 = [0, 1, 2, 3, 2, 1]
   \<and> foldl (\<lambda>c m. (c + m) mod 6) 3 [1, 1, 1 :: nat] = 0
   \<and> build_table (\<lambda>c m. (c + m) mod 6) [1, 5 :: nat] 6 0 ! 3 \<le> length [1, 1, 1 :: nat]"
proof -
  have cl: "closed_table (\<lambda>c m. (c + m) mod 6) [1, 5 :: nat] 6"
    by (simp add: closed_table_def)
  have inv: "\<forall>c < 6. \<forall>m \<in> set [1, 5 :: nat]. \<exists>m' \<in> set [1, 5 :: nat]. ((c + m) mod 6 + m') mod 6 = c"
    by (simp add: mod_simps)
  have p: "foldl (\<lambda>c m. (c + m) mod 6) 3 [1, 1, 1 :: nat] = 0" by simp
  have g: "(0::nat) < 6" "(3::nat) < 6" "set [1, 1, 1 :: nat] \<subseteq> set [1, 5]" by simp_all
  have "build_table (\<lambda>c m. (c + m) mod 6) [1, 5 :: nat] 6 0 ! 3 < 15"
    unfolding table_mod6 by simp
  with pruning_entry_is_lower_bound [OF cl g(1) inv g(2) g(3) p]
  have "build_table (\<lambda>c m. (c + m) mod 6) [1, 5 :: nat] 6 0 ! 3 \<le> length [1, 1, 1 :: nat]"
    by blast
  with table_mod6 p show ?thesis by blast
qed


section \<open>Properties of the entry of the solver\<close>

lemma lt_append: "lt (xs @ ys) v = lt xs v + lt ys v"
  by (simp add: lt_def)


lemma inversions_Cons: "inversions (x # xs) = lt xs x + inversions xs"
  by (simp add: lt_def)




















end
